theory Spec2Isabelle
  imports Main "HOL-Library.AList" "HOL-Library.Multiset" "HOL-Library.Sublist"
begin

section \<open>Data model\<close>

text \<open>
  The development embeds \<^verbatim>\<open>feedly/aggregators/base.py\<close>: the classes
  \<^verbatim>\<open>BaseAggregator\<close>, \<^verbatim>\<open>ModulusAggregator\<close> and \<^verbatim>\<open>RecentVerbAggregator\<close>.
  Python exceptions are values of \<open>py_error\<close>; a function that may raise returns
  \<open>py_error + 'a\<close> with \<open>Inl\<close> for the exception.
\<close>

datatype py_error =
    ValueError string
  | NotImplementedError string
  | ZeroDivisionError string
  | KeyError

text \<open>
  An activity is an external entity. The aggregators read \<^verbatim>\<open>activity.object_id\<close>
  (an unbounded Python integer); every other field lives in the extension part of the
  record, so the functions below accept any activity that has an \<open>object_id\<close>.
\<close>

record activity =
  object_id :: int

text \<open>
  Modelled from the spec: the class \<^verbatim>\<open>AggregatedActivity\<close>, which \<^verbatim>\<open>base.py\<close>
  imports from the module \<^verbatim>\<open>feedly.activity\<close>; the module itself is missing. The spec
  gives a bucket a \<open>group\<close> key fixed at creation and an insertion-ordered, append-only
  sequence \<open>activities\<close>; \<^verbatim>\<open>AggregatedActivity(group)\<close> creates an empty bucket and
  \<^verbatim>\<open>append(activity)\<close> adds the activity at the end of the sequence.
\<close>

record ('g, 'a) AggregatedActivity =
  group :: 'g
  activities :: "'a list"

definition aggregation_class :: "'g \<Rightarrow> ('g, 'a) AggregatedActivity" where
  "aggregation_class g = \<lparr>group = g, activities = []\<rparr>"

definition AggregatedActivity_append ::
  "('g, 'a) AggregatedActivity \<Rightarrow> 'a \<Rightarrow> ('g, 'a) AggregatedActivity" where
  "AggregatedActivity_append b a = b\<lparr>activities := activities b @ [a]\<rparr>"

text \<open>
  A Python \<^verbatim>\<open>dict\<close> is an association list with pairwise distinct keys:
  \<open>map_of\<close> is the lookup, \<open>AList.update\<close> is \<^verbatim>\<open>d[k] = v\<close> (a present key keeps its
  place, a new key goes to the end).
\<close>

type_synonym ('k, 'v) dict = "('k \<times> 'v) list"

section \<open>Grouping\<close>

text \<open>
  The body of the loop of \<^verbatim>\<open>group_activities\<close>, after \<^verbatim>\<open>get_group\<close> has returned
  the key \<open>g\<close>: an unseen key gets a new empty bucket, then the bucket stored under the key
  is fetched (\<^verbatim>\<open>aggregate_dict[group]\<close>, a \<^verbatim>\<open>KeyError\<close> when absent) and the
  activity is appended to it. The bucket is only reachable through the dictionary, so its
  mutation in place is the replacement of the dictionary's entry.
\<close>

definition group_activities_body ::
  "('g, ('g, 'a) AggregatedActivity) dict \<Rightarrow> 'g \<Rightarrow> 'a
     \<Rightarrow> py_error + ('g, ('g, 'a) AggregatedActivity) dict" where
  "group_activities_body aggregate_dict g activity =
     (let d1 = (if map_of aggregate_dict g = None
                then AList.update g (aggregation_class g) aggregate_dict
                else aggregate_dict)
      in case map_of d1 g of
           None \<Rightarrow> Inl KeyError
         | Some b \<Rightarrow> Inr (AList.update g (AggregatedActivity_append b activity) d1))"

text \<open>
  The loop itself. \<^verbatim>\<open>self.get_group\<close> is dispatched on the concrete aggregator, so it
  is a parameter; an exception it raises leaves the loop at once.
\<close>

fun group_activities_loop ::
  "('a \<Rightarrow> py_error + 'g) \<Rightarrow> ('g, ('g, 'a) AggregatedActivity) dict \<Rightarrow> 'a list
     \<Rightarrow> py_error + ('g, ('g, 'a) AggregatedActivity) dict" where
  "group_activities_loop get_group aggregate_dict [] = Inr aggregate_dict"
| "group_activities_loop get_group aggregate_dict (activity # rest) =
     (case get_group activity of
        Inl e \<Rightarrow> Inl e
      | Inr g \<Rightarrow>
         (case group_activities_body aggregate_dict g activity of
            Inl e \<Rightarrow> Inl e
          | Inr d \<Rightarrow> group_activities_loop get_group d rest))"

definition group_activities ::
  "('a \<Rightarrow> py_error + 'g) \<Rightarrow> 'a list \<Rightarrow> py_error + ('g, ('g, 'a) AggregatedActivity) dict" where
  "group_activities get_group acts = group_activities_loop get_group [] acts"

text \<open>
  The contents that grouping gives the key \<open>k\<close> when it starts from the dictionary \<open>d\<close>
  and every activity \<open>a\<close> has the key \<open>key a\<close>: the statement of the loop's result.
\<close>

definition grouped ::
  "('a \<Rightarrow> 'g) \<Rightarrow> ('g, ('g, 'a) AggregatedActivity) dict \<Rightarrow> 'a list \<Rightarrow> 'g
     \<Rightarrow> ('g, 'a) AggregatedActivity option" where
  "grouped key d acts k =
     (case map_of d k of
        Some b \<Rightarrow> Some (b\<lparr>activities := activities b @ filter (\<lambda>a. key a = k) acts\<rparr>)
      | None \<Rightarrow> if k \<in> key ` set acts
                then Some \<lparr>group = k, activities = filter (\<lambda>a. key a = k) acts\<rparr>
                else None)"

section \<open>Ranking\<close>

text \<open>The abstract methods of \<^verbatim>\<open>BaseAggregator\<close> raise for every argument.\<close>

definition BaseAggregator_get_group :: "'a \<Rightarrow> py_error + 'g" where
  "BaseAggregator_get_group activity = Inl (ValueError ''not implemented'')"

definition BaseAggregator_rank :: "'b list \<Rightarrow> py_error + 'b list" where
  "BaseAggregator_rank aggregated_activities = Inl (ValueError ''not implemented'')"

text \<open>Python's \<^verbatim>\<open>max\<close> of a list of integers; it raises on the empty list.\<close>

fun py_max :: "int list \<Rightarrow> py_error + int" where
  "py_max [] = Inl (ValueError ''max() arg is an empty sequence'')"
| "py_max (x # xs) = Inr (fold max xs x)"

text \<open>
  \<^verbatim>\<open>list.sort(key=..., reverse=...)\<close>: the keys of all elements are computed first,
  in list order, and the first exception leaves the sort; then the list is sorted by key,
  ascending and stable. With \<^verbatim>\<open>reverse=True\<close> the list is reversed before and after
  the sort, which sorts descending and keeps equal keys in their original order.
\<close>

fun try_map :: "('b \<Rightarrow> py_error + 'k) \<Rightarrow> 'b list \<Rightarrow> py_error + 'k list" where
  "try_map f [] = Inr []"
| "try_map f (x # xs) =
     (case f x of
        Inl e \<Rightarrow> Inl e
      | Inr k \<Rightarrow> (case try_map f xs of Inl e \<Rightarrow> Inl e | Inr ks \<Rightarrow> Inr (k # ks)))"

definition list_sort ::
  "('b \<Rightarrow> py_error + 'k::linorder) \<Rightarrow> bool \<Rightarrow> 'b list \<Rightarrow> py_error + 'b list" where
  "list_sort key reverse xs =
     (case try_map key xs of
        Inl e \<Rightarrow> Inl e
      | Inr ks \<Rightarrow>
          Inr (map snd (if reverse then rev (sort_key fst (rev (zip ks xs)))
                        else sort_key fst (zip ks xs))))"

definition ModulusAggregator_sort_key ::
  "('g, 'z activity_scheme) AggregatedActivity \<Rightarrow> py_error + int" where
  "ModulusAggregator_sort_key aggregated_activity =
     py_max (map object_id (activities aggregated_activity))"

definition ModulusAggregator_rank ::
  "('g, 'z activity_scheme) AggregatedActivity list
     \<Rightarrow> py_error + ('g, 'z activity_scheme) AggregatedActivity list" where
  "ModulusAggregator_rank aggregated_activities =
     list_sort ModulusAggregator_sort_key False aggregated_activities"

text \<open>
  \<^verbatim>\<open>activity.object_id % self.modulus\<close>: Python's remainder has the sign of the
  divisor, as \<open>mod\<close> on \<open>int\<close> has, and raises when the divisor is zero.
\<close>

definition ModulusAggregator_get_group :: "int \<Rightarrow> 'z activity_scheme \<Rightarrow> py_error + int" where
  "ModulusAggregator_get_group modulus activity =
     (if modulus = 0 then Inl (ZeroDivisionError ''integer division or modulo by zero'')
      else Inr (object_id activity mod modulus))"

text \<open>
  \<^verbatim>\<open>RecentVerbAggregator.rank\<close> sorts by the attribute \<^verbatim>\<open>updated_at\<close> of the
  bucket, newest first. The attribute belongs to \<^verbatim>\<open>AggregatedActivity\<close>, so it is the
  parameter \<open>updated_at\<close>, with values in any linear order.
\<close>

definition RecentVerbAggregator_rank ::
  "('b \<Rightarrow> 't::linorder) \<Rightarrow> 'b list \<Rightarrow> py_error + 'b list" where
  "RecentVerbAggregator_rank updated_at aggregated_activities =
     list_sort (\<lambda>a. Inr (updated_at a)) True aggregated_activities"

section \<open>Aggregate\<close>

text \<open>
  \<^verbatim>\<open>aggregate\<close> groups, takes the dictionary's values and ranks them. The code is
  Python 2 (\<^verbatim>\<open>values()\<close> returns a list, which \<^verbatim>\<open>rank\<close> sorts in place), where the
  order of \<^verbatim>\<open>values()\<close> is unspecified: \<open>values\<close> is a parameter, and \<open>values_order\<close>
  says that it lists the values of the dictionary, in some order.
\<close>

definition values_order :: "(('k, 'v) dict \<Rightarrow> 'v list) \<Rightarrow> bool" where
  "values_order values = (\<forall>d. mset (values d) = mset (map snd d))"

definition aggregate ::
  "('a \<Rightarrow> py_error + 'g) \<Rightarrow> (('g, 'a) AggregatedActivity list \<Rightarrow> py_error + 'r)
     \<Rightarrow> (('g, ('g, 'a) AggregatedActivity) dict \<Rightarrow> ('g, 'a) AggregatedActivity list)
     \<Rightarrow> 'a list \<Rightarrow> py_error + 'r" where
  "aggregate get_group rank values acts =
     (case group_activities get_group acts of
        Inl e \<Rightarrow> Inl e
      | Inr aggregate_dict \<Rightarrow> rank (values aggregate_dict))"

definition ModulusAggregator_aggregate ::
  "int \<Rightarrow> ((int, (int, 'z activity_scheme) AggregatedActivity) dict
           \<Rightarrow> (int, 'z activity_scheme) AggregatedActivity list)
     \<Rightarrow> 'z activity_scheme list
     \<Rightarrow> py_error + (int, 'z activity_scheme) AggregatedActivity list" where
  "ModulusAggregator_aggregate modulus values acts =
     aggregate (ModulusAggregator_get_group modulus) ModulusAggregator_rank values acts"

section \<open>Auxiliary notions used in the statements\<close>

text \<open>
  The sort key of \<^verbatim>\<open>ModulusAggregator.rank\<close> on a bucket that holds an activity: the
  largest \<open>object_id\<close> in the bucket.
\<close>

definition max_object_id :: "('g, 'z activity_scheme) AggregatedActivity \<Rightarrow> int" where
  "max_object_id b = Max (object_id ` set (activities b))"

text \<open>The exception class \<^verbatim>\<open>NotImplementedError\<close>.\<close>

fun is_NotImplementedError :: "py_error \<Rightarrow> bool" where
  "is_NotImplementedError (NotImplementedError m) = True"
| "is_NotImplementedError e = False"

text \<open>The activities with the ids 1, 2, 3 and 4, in this order.\<close>

definition example_activities :: "activity list" where
  "example_activities =
     [\<lparr>object_id = 1\<rparr>, \<lparr>object_id = 2\<rparr>, \<lparr>object_id = 3\<rparr>, \<lparr>object_id = 4\<rparr>]"

section \<open>Merge\<close>

text \<open>
  \<^verbatim>\<open>merge\<close> copies bucket objects and appends to the copies, while its caller keeps
  references to the old buckets: the buckets live in an explicit store.

  Modelled from the spec: the objects of the missing class \<^verbatim>\<open>AggregatedActivity\<close>. An
  object of the class has the attribute \<^verbatim>\<open>group\<close> and the attribute
  \<^verbatim>\<open>activities\<close>, which refers to a Python list object of its own address; two bucket
  objects may refer to one list object. The store holds the bucket objects and the list
  objects, each kind in a heap of its own; an address is an index into the heap, and an
  allocation extends the heap at its end. Activities are immutable values.
\<close>

type_synonym addr = nat

record ('g, 'a) store =
  object_heap :: "('g \<times> addr) list"
  list_heap :: "'a list list"

definition get_object :: "('g, 'a) store \<Rightarrow> addr \<Rightarrow> ('g \<times> addr) option" where
  "get_object s r = (if r < length (object_heap s) then Some (object_heap s ! r) else None)"

definition get_list :: "('g, 'a) store \<Rightarrow> addr \<Rightarrow> 'a list option" where
  "get_list s l = (if l < length (list_heap s) then Some (list_heap s ! l) else None)"

text \<open>
  The bucket that the object at \<open>r\<close> stands for: its group and the contents of its list.
  \<open>None\<close> is a dangling reference, which no Python program can hold.
\<close>

definition read_bucket :: "('g, 'a) store \<Rightarrow> addr \<Rightarrow> ('g, 'a) AggregatedActivity option" where
  "read_bucket s r =
     (case get_object s r of
        None \<Rightarrow> None
      | Some (g, l) \<Rightarrow>
          (case get_list s l of
             None \<Rightarrow> None
           | Some xs \<Rightarrow> Some \<lparr>group = g, activities = xs\<rparr>))"

definition key_at :: "('g, 'a) store \<Rightarrow> addr \<Rightarrow> 'g option" where
  "key_at s r = map_option fst (get_object s r)"

text \<open>
  \<^verbatim>\<open>copy.deepcopy\<close> of a bucket object: a new list object with the same activities and a
  new bucket object that refers to it; the group key is an immutable value and is shared.
\<close>

definition deepcopy :: "('g, 'a) store \<Rightarrow> addr \<Rightarrow> (('g, 'a) store \<times> addr) option" where
  "deepcopy s r =
     (case get_object s r of
        None \<Rightarrow> None
      | Some (g, l) \<Rightarrow>
          (case get_list s l of
             None \<Rightarrow> None
           | Some xs \<Rightarrow>
               Some (s\<lparr>list_heap := list_heap s @ [xs],
                        object_heap := object_heap s @ [(g, length (list_heap s))]\<rparr>,
                     length (object_heap s))))"

text \<open>\<^verbatim>\<open>append\<close> on the bucket object at \<open>r\<close>: its list object grows by one activity.\<close>

definition append_object :: "('g, 'a) store \<Rightarrow> addr \<Rightarrow> 'a \<Rightarrow> ('g, 'a) store option" where
  "append_object s r a =
     (case get_object s r of
        None \<Rightarrow> None
      | Some (g, l) \<Rightarrow>
          (case get_list s l of
             None \<Rightarrow> None
           | Some xs \<Rightarrow> Some (s\<lparr>list_heap := (list_heap s)[l := xs @ [a]]\<rparr>)))"

text \<open>
  \<^verbatim>\<open>for activity in aggregated.activities: new_aggregated.append(activity)\<close>. The
  iterator of a Python list holds the list object \<open>l\<close> and an index \<open>i\<close>, and compares the
  index with the length the list has at that moment; were the list the one that grows,
  the loop would not end, hence the result \<open>None\<close> of a loop that does not return.
\<close>

partial_function (option) append_activities ::
  "('g, 'a) store \<Rightarrow> addr \<Rightarrow> nat \<Rightarrow> addr \<Rightarrow> ('g, 'a) store option" where
  "append_activities s l i new_aggregated =
     (case get_list s l of
        None \<Rightarrow> None
      | Some xs \<Rightarrow>
          if i < length xs
          then (case append_object s new_aggregated (xs ! i) of
                  None \<Rightarrow> None
                | Some s' \<Rightarrow> append_activities s' l (Suc i) new_aggregated)
          else Some s)"

declare append_activities.simps [code]

text \<open>
  \<^verbatim>\<open>dict([(a.group, a) for a in aggregated])\<close>: the pairs in list order, then the
  dictionary, where a later pair replaces an earlier one with the same key.
\<close>

fun group_pairs :: "('g, 'a) store \<Rightarrow> addr list \<Rightarrow> ('g \<times> addr) list option" where
  "group_pairs s [] = Some []"
| "group_pairs s (a # aggregated) =
     (case get_object s a of
        None \<Rightarrow> None
      | Some (g, l) \<Rightarrow>
          (case group_pairs s aggregated of
             None \<Rightarrow> None
           | Some ps \<Rightarrow> Some ((g, a) # ps)))"

definition dict_of :: "('k \<times> 'v) list \<Rightarrow> ('k, 'v) dict" where
  "dict_of ps = foldl (\<lambda>d (k, v). AList.update k v d) [] ps"

text \<open>
  The loop of \<^verbatim>\<open>merge\<close> over the new generation, with the lists \<^verbatim>\<open>new\<close> and
  \<^verbatim>\<open>changed\<close> as accumulators. The assignment to \<^verbatim>\<open>new_aggregated\<close> in the body
  rebinds the name only: the loop iterates over the list it started with.
\<close>

fun merge_loop ::
  "('g, 'a) store \<Rightarrow> ('g, addr) dict \<Rightarrow> addr list \<Rightarrow> addr list \<Rightarrow> (addr \<times> addr) list
     \<Rightarrow> (('g, 'a) store \<times> addr list \<times> (addr \<times> addr) list) option" where
  "merge_loop s current_activities_dict [] new changed = Some (s, new, changed)"
| "merge_loop s current_activities_dict (aggregated # rest) new changed =
     (case get_object s aggregated of
        None \<Rightarrow> None
      | Some (g, l0) \<Rightarrow>
          (case map_of current_activities_dict g of
             None \<Rightarrow> merge_loop s current_activities_dict rest (new @ [aggregated]) changed
           | Some current_aggregated \<Rightarrow>
               (case deepcopy s current_aggregated of
                  None \<Rightarrow> None
                | Some (s1, new_aggregated) \<Rightarrow>
                    (case get_object s1 aggregated of
                       None \<Rightarrow> None
                     | Some (g1, l) \<Rightarrow>
                         (case append_activities s1 l 0 new_aggregated of
                            None \<Rightarrow> None
                          | Some s2 \<Rightarrow>
                              merge_loop s2 current_activities_dict rest new
                                (changed @ [(current_aggregated, new_aggregated)]))))))"

definition merge ::
  "('g, 'a) store \<Rightarrow> addr list \<Rightarrow> addr list
     \<Rightarrow> (('g, 'a) store \<times> addr list \<times> (addr \<times> addr) list \<times> addr list) option" where
  "merge s aggregated new_aggregated =
     (case group_pairs s aggregated of
        None \<Rightarrow> None
      | Some ps \<Rightarrow>
          (case merge_loop s (dict_of ps) new_aggregated [] [] of
             None \<Rightarrow> None
           | Some (s', new, changed) \<Rightarrow> Some (s', new, changed, [])))"

text \<open>
  A store is well formed when every bucket object refers to a list object of the store.
\<close>

definition wf_store :: "('g, 'a) store \<Rightarrow> bool" where
  "wf_store s = list_all (\<lambda>(g, l). l < length (list_heap s)) (object_heap s)"

text \<open>
  The old bucket with the group key \<open>g\<close>: the last one in the old generation, which is
  the one the dictionary keeps. \<open>old_for\<close> is the old bucket with the key of the bucket
  at \<open>r\<close>.
\<close>

definition old_bucket :: "('g, 'a) store \<Rightarrow> addr list \<Rightarrow> 'g \<Rightarrow> addr option" where
  "old_bucket s aggregated g = find (\<lambda>a. key_at s a = Some g) (rev aggregated)"

definition old_for :: "('g, 'a) store \<Rightarrow> addr list \<Rightarrow> addr \<Rightarrow> addr option" where
  "old_for s aggregated r = Option.bind (key_at s r) (old_bucket s aggregated)"

text \<open>
  \<^verbatim>\<open>current_activities_dict.get(aggregated.group)\<close> for the bucket at \<open>r\<close>.
\<close>

definition lookup_for :: "('g, 'a) store \<Rightarrow> ('g, addr) dict \<Rightarrow> addr \<Rightarrow> addr option" where
  "lookup_for s d r = Option.bind (key_at s r) (map_of d)"

text \<open>
  What \<^verbatim>\<open>merge\<close> makes of the bucket at \<open>r\<close> of the new generation when the old
  generation has its key: the pair \<open>p\<close> of the old bucket and of a bucket object
  allocated by the merge, with a list object allocated by the merge, that holds the old
  bucket's activities followed by the activities of the bucket at \<open>r\<close>. The store \<open>s\<close> is
  the one before the merge, \<open>s'\<close> the one after it.
\<close>

definition merged_from ::
  "('g, 'a) store \<Rightarrow> ('g, 'a) store \<Rightarrow> addr \<Rightarrow> addr \<times> addr \<Rightarrow> bool" where
  "merged_from s s' r p =
     (case (read_bucket s (fst p), read_bucket s r, get_object s' (snd p)) of
        (Some ov, Some bv, Some (g, l)) \<Rightarrow>
            g = group ov
          \<and> length (object_heap s) \<le> snd p
          \<and> length (list_heap s) \<le> l
          \<and> get_list s' l = Some (activities ov @ activities bv)
      | _ \<Rightarrow> False)"

text \<open>
  The store of the scenario of the spec: the old bucket \<open>a\<close> with the activity 1 at the
  address 0, the new buckets \<open>a\<close> with the activity 2 and \<open>b\<close> with the activity 3 at the
  addresses 1 and 2.
\<close>

definition example_store :: "(string, activity) store" where
  "example_store =
     \<lparr>object_heap = [(''a'', 0), (''a'', 1), (''b'', 2)],
      list_heap = [[\<lparr>object_id = 1\<rparr>], [\<lparr>object_id = 2\<rparr>], [\<lparr>object_id = 3\<rparr>]]\<rparr>"

text \<open>
  A store in which the new generation has two buckets with the key \<open>a\<close>, at the
  addresses 1 and 2; the old bucket \<open>a\<close> is at the address 0.
\<close>

definition duplicate_store :: "(string, activity) store" where
  "duplicate_store =
     \<lparr>object_heap = [(''a'', 0), (''a'', 1), (''a'', 2)],
      list_heap = [[\<lparr>object_id = 1\<rparr>], [\<lparr>object_id = 2\<rparr>], [\<lparr>object_id = 3\<rparr>]]\<rparr>"

section \<open>Grouping: results\<close>

lemma group_activities_body_eq:
  "group_activities_body d g a =
     Inr (AList.update g
            (AggregatedActivity_append
               (case map_of d g of None \<Rightarrow> aggregation_class g | Some b \<Rightarrow> b) a) d)"
proof (cases "map_of d g")
  case None
  then show ?thesis by (simp add: group_activities_body_def update_conv')
next
  case (Some b)
  then show ?thesis by (simp add: group_activities_body_def)
qed

lemma group_activities_loop_Cons:
  assumes "get_group a = Inr g"
  shows "group_activities_loop get_group d (a # rest) =
         group_activities_loop get_group
           (AList.update g (AggregatedActivity_append
               (case map_of d g of None \<Rightarrow> aggregation_class g | Some b \<Rightarrow> b) a) d) rest"
  using assms by (simp add: group_activities_body_eq)

lemma grouped_Cons:
  "grouped key (AList.update (key a) (AggregatedActivity_append
               (case map_of d (key a) of None \<Rightarrow> aggregation_class (key a) | Some b \<Rightarrow> b) a) d) rest k
   = grouped key d (a # rest) k"
  by (cases "map_of d (key a)"; cases "map_of d k")
     (auto simp: grouped_def update_conv' AggregatedActivity_append_def aggregation_class_def)

lemma group_activities_loop_char:
  assumes "\<And>a. a \<in> set acts \<Longrightarrow> get_group a = Inr (key a)"
      and "distinct (map fst d)"
  shows "\<exists>d'. group_activities_loop get_group d acts = Inr d' \<and> distinct (map fst d') \<and>
           (\<forall>k. map_of d' k = grouped key d acts k)"
  using assms
proof (induction acts arbitrary: d)
  case Nil
  then show ?case by (simp add: grouped_def split: option.splits)
next
  case (Cons a rest)
  let ?d2 = "AList.update (key a) (AggregatedActivity_append
               (case map_of d (key a) of None \<Rightarrow> aggregation_class (key a) | Some b \<Rightarrow> b) a) d"
  have ga: "get_group a = Inr (key a)" using Cons.prems(1) by simp
  have rest: "\<And>x. x \<in> set rest \<Longrightarrow> get_group x = Inr (key x)" using Cons.prems(1) by simp
  have dist2: "distinct (map fst ?d2)"
    using Cons.prems(2) by (simp add: distinct_update)
  from Cons.IH[OF rest dist2]
  obtain d' where d': "group_activities_loop get_group ?d2 rest = Inr d'"
      "distinct (map fst d')"
      "\<forall>k. map_of d' k = grouped key ?d2 rest k"
    by blast
  have "group_activities_loop get_group d (a # rest) = Inr d'"
    using group_activities_loop_Cons[of get_group a "key a" d rest] ga d'(1) by simp
  then show ?case
    using d'(2,3) by (simp add: grouped_Cons)
qed

lemma group_activities_char:
  assumes "\<And>a. a \<in> set acts \<Longrightarrow> get_group a = Inr (key a)"
  shows "\<exists>d. group_activities get_group acts = Inr d \<and> distinct (map fst d) \<and>
           (\<forall>k b. (k, b) \<in> set d \<longleftrightarrow>
               k \<in> key ` set acts \<and> b = \<lparr>group = k, activities = filter (\<lambda>a. key a = k) acts\<rparr>)"
proof -
  from group_activities_loop_char[of acts get_group key "[]"] assms
  obtain d where d: "group_activities_loop get_group [] acts = Inr d" "distinct (map fst d)"
     "\<forall>k. map_of d k = grouped key [] acts k"
    by auto
  have "(k, b) \<in> set d \<longleftrightarrow>
               k \<in> key ` set acts \<and> b = \<lparr>group = k, activities = filter (\<lambda>a. key a = k) acts\<rparr>" for k b
  proof -
    have "(k, b) \<in> set d \<longleftrightarrow> map_of d k = Some b"
      using d(2) by simp
    also have "\<dots> \<longleftrightarrow> grouped key [] acts k = Some b" using d(3) by simp
    also have "\<dots> \<longleftrightarrow> k \<in> key ` set acts \<and> b = \<lparr>group = k, activities = filter (\<lambda>a. key a = k) acts\<rparr>"
      by (auto simp: grouped_def)
    finally show ?thesis .
  qed
  with d(1,2) show ?thesis by (simp add: group_activities_def)
qed

lemma sum_activities_update:
  "(\<Sum>kb\<leftarrow>AList.update g (AggregatedActivity_append
        (case map_of d g of None \<Rightarrow> aggregation_class g | Some b \<Rightarrow> b) a) d. mset (activities (snd kb)))
   = (\<Sum>kb\<leftarrow>d. mset (activities (snd kb))) + {#a#}"
  by (induction d) (auto simp: AggregatedActivity_append_def aggregation_class_def)

lemma group_activities_loop_mset:
  "group_activities_loop get_group d acts = Inr d' \<Longrightarrow>
     (\<Sum>kb\<leftarrow>d'. mset (activities (snd kb))) = (\<Sum>kb\<leftarrow>d. mset (activities (snd kb))) + mset acts"
proof (induction acts arbitrary: d)
  case Nil
  then show ?case by simp
next
  case (Cons a rest)
  then obtain g where g: "get_group a = Inr g"
    by (cases "get_group a") auto
  from Cons.prems have "group_activities_loop get_group
           (AList.update g (AggregatedActivity_append
               (case map_of d g of None \<Rightarrow> aggregation_class g | Some b \<Rightarrow> b) a) d) rest = Inr d'"
    using group_activities_loop_Cons[of get_group a g d rest] g by simp
  from Cons.IH[OF this] show ?case
    by (simp add: sum_activities_update)
qed

lemma set_update_subset: "set (AList.update k v al) \<subseteq> insert (k, v) (set al)"
  by (induction al) auto

lemma group_activities_loop_nonempty:
  "group_activities_loop get_group d acts = Inr d' \<Longrightarrow>
     \<forall>kb\<in>set d. activities (snd kb) \<noteq> [] \<Longrightarrow> \<forall>kb\<in>set d'. activities (snd kb) \<noteq> []"
proof (induction acts arbitrary: d)
  case Nil
  then show ?case by simp
next
  case (Cons a rest)
  then obtain g where g: "get_group a = Inr g"
    by (cases "get_group a") auto
  let ?v = "AggregatedActivity_append
               (case map_of d g of None \<Rightarrow> aggregation_class g | Some b \<Rightarrow> b) a"
  from Cons.prems(1) have run: "group_activities_loop get_group (AList.update g ?v d) rest = Inr d'"
    using group_activities_loop_Cons[of get_group a g d rest] g by simp
  have "activities ?v \<noteq> []" by (simp add: AggregatedActivity_append_def)
  moreover have "set (AList.update g ?v d) \<subseteq> insert (g, ?v) (set d)"
    by (rule set_update_subset)
  ultimately have "\<forall>kb\<in>set (AList.update g ?v d). activities (snd kb) \<noteq> []"
    using Cons.prems(2) by auto
  from Cons.IH[OF run this] show ?case .
qed

lemma group_activities_loop_append:
  "group_activities_loop get_group d (xs @ ys) =
     (case group_activities_loop get_group d xs of
        Inl e \<Rightarrow> Inl e
      | Inr d' \<Rightarrow> group_activities_loop get_group d' ys)"
  by (induction xs arbitrary: d) (auto split: sum.splits)

lemma update_absent: "map_of d k = None \<Longrightarrow> AList.update k v d = d @ [(k, v)]"
  by (induction d) (auto split: if_splits)

lemma group_activities_loop_Inl:
  "group_activities_loop get_group d acts = Inl e \<Longrightarrow> \<exists>a\<in>set acts. get_group a = Inl e"
proof (induction acts arbitrary: d)
  case Nil
  then show ?case by simp
next
  case (Cons a rest)
  show ?case
  proof (cases "get_group a")
    case (Inl e')
    with Cons.prems show ?thesis by simp
  next
    case (Inr g)
    with Cons.prems have "group_activities_loop get_group
           (AList.update g (AggregatedActivity_append
               (case map_of d g of None \<Rightarrow> aggregation_class g | Some b \<Rightarrow> b) a) d) rest = Inl e"
      by (simp add: group_activities_body_eq)
    from Cons.IH[OF this] show ?thesis by auto
  qed
qed

lemma example_keys:
  "\<forall>a\<in>set example_activities. ModulusAggregator_get_group 3 a = Inr (object_id a mod 3)"
  by (simp add: ModulusAggregator_get_group_def)

text \<open>
  Claim C5. When \<^verbatim>\<open>get_group\<close> returns a key for every activity of the input,
  \<^verbatim>\<open>group_activities\<close> returns a dictionary with one bucket for each key that occurs;
  every activity of the input is in exactly one bucket; the bucket that holds an activity
  is stored under the key of that activity and carries it as its \<open>group\<close>; the buckets
  together hold exactly the activities of the input, as often as the input does. One more
  activity at the end of the input goes to a new bucket, at the end of the dictionary, when
  its key is unseen, and to the end of the existing bucket otherwise.
\<close>

theorem group_activities_complete:
  assumes "\<forall>a\<in>set acts. get_group a = Inr (key a)"
  shows "\<exists>d. group_activities get_group acts = Inr d
           \<and> distinct (map fst d)
           \<and> fst ` set d = key ` set acts
           \<and> (\<forall>a\<in>set acts. \<exists>!kb. kb \<in> set d \<and> a \<in> set (activities (snd kb)))
           \<and> (\<forall>a\<in>set acts. \<forall>kb\<in>set d.
                 a \<in> set (activities (snd kb)) \<longrightarrow> fst kb = key a \<and> group (snd kb) = key a)
           \<and> (\<Sum>kb\<leftarrow>d. mset (activities (snd kb))) = mset acts
           \<and> (\<forall>a. get_group a = Inr (key a) \<longrightarrow>
                 group_activities get_group (acts @ [a]) =
                   Inr (case map_of d (key a) of
                          None \<Rightarrow> d @ [(key a, \<lparr>group = key a, activities = [a]\<rparr>)]
                        | Some b \<Rightarrow> AList.update (key a) (b\<lparr>activities := activities b @ [a]\<rparr>) d))"
proof -
  from group_activities_char[of acts get_group key] assms
  obtain d where run: "group_activities get_group acts = Inr d"
    and dist: "distinct (map fst d)"
    and char: "\<And>k b. (k, b) \<in> set d \<longleftrightarrow>
               k \<in> key ` set acts \<and> b = \<lparr>group = k, activities = filter (\<lambda>a. key a = k) acts\<rparr>"
    by blast
  have keys: "fst ` set d = key ` set acts"
  proof (intro set_eqI iffI)
    fix k assume "k \<in> fst ` set d"
    then obtain b where "(k, b) \<in> set d" by auto
    then show "k \<in> key ` set acts" using char by blast
  next
    fix k assume "k \<in> key ` set acts"
    then have "(k, \<lparr>group = k, activities = filter (\<lambda>a. key a = k) acts\<rparr>) \<in> set d"
      using char by blast
    then show "k \<in> fst ` set d" by force
  qed
  have one: "\<exists>!kb. kb \<in> set d \<and> a \<in> set (activities (snd kb))" if a: "a \<in> set acts" for a
  proof (rule ex1I[of _ "(key a, \<lparr>group = key a, activities = filter (\<lambda>x. key x = key a) acts\<rparr>)"])
    show "(key a, \<lparr>group = key a, activities = filter (\<lambda>x. key x = key a) acts\<rparr>) \<in> set d \<and>
      a \<in> set (activities (snd (key a, \<lparr>group = key a, activities = filter (\<lambda>x. key x = key a) acts\<rparr>)))"
      using a char[of "key a" "\<lparr>group = key a, activities = filter (\<lambda>x. key x = key a) acts\<rparr>"]
      by simp
  next
    fix kb assume kb: "kb \<in> set d \<and> a \<in> set (activities (snd kb))"
    obtain k b where [simp]: "kb = (k, b)" by (cases kb)
    from kb char[of k b] have b: "b = \<lparr>group = k, activities = filter (\<lambda>a. key a = k) acts\<rparr>"
      by simp
    with kb have "key a = k" by simp
    with b show "kb = (key a, \<lparr>group = key a, activities = filter (\<lambda>x. key x = key a) acts\<rparr>)"
      by simp
  qed
  have stored: "fst kb = key a \<and> group (snd kb) = key a"
    if "kb \<in> set d" "a \<in> set (activities (snd kb))" for a kb
  proof -
    obtain k b where [simp]: "kb = (k, b)" by (cases kb)
    from that char[of k b] have b: "b = \<lparr>group = k, activities = filter (\<lambda>a. key a = k) acts\<rparr>"
      by simp
    with that show ?thesis by simp
  qed
  have total: "(\<Sum>kb\<leftarrow>d. mset (activities (snd kb))) = mset acts"
    using group_activities_loop_mset[of get_group "[]" acts d] run
    by (simp add: group_activities_def)
  have next_one: "group_activities get_group (acts @ [a]) =
                   Inr (case map_of d (key a) of
                          None \<Rightarrow> d @ [(key a, \<lparr>group = key a, activities = [a]\<rparr>)]
                        | Some b \<Rightarrow> AList.update (key a) (b\<lparr>activities := activities b @ [a]\<rparr>) d)"
    if "get_group a = Inr (key a)" for a
  proof -
    have "group_activities get_group (acts @ [a]) = group_activities_loop get_group d [a]"
      using run by (simp add: group_activities_def group_activities_loop_append)
    also have "\<dots> = Inr (AList.update (key a) (AggregatedActivity_append
               (case map_of d (key a) of None \<Rightarrow> aggregation_class (key a) | Some b \<Rightarrow> b) a) d)"
      using that by (simp add: group_activities_body_eq)
    also have "\<dots> = Inr (case map_of d (key a) of
                          None \<Rightarrow> d @ [(key a, \<lparr>group = key a, activities = [a]\<rparr>)]
                        | Some b \<Rightarrow> AList.update (key a) (b\<lparr>activities := activities b @ [a]\<rparr>) d)"
      by (cases "map_of d (key a)")
         (simp_all add: update_absent AggregatedActivity_append_def aggregation_class_def)
    finally show ?thesis .
  qed
  show ?thesis
  proof (intro exI[of _ d] conjI ballI allI impI)
    show "group_activities get_group acts = Inr d" by (rule run)
    show "distinct (map fst d)" by (rule dist)
    show "fst ` set d = key ` set acts" by (rule keys)
    show "\<exists>!kb. kb \<in> set d \<and> a \<in> set (activities (snd kb))" if "a \<in> set acts" for a
      using that by (rule one)
    show "fst kb = key a" if "kb \<in> set d" "a \<in> set (activities (snd kb))" for a kb
      using stored[OF that] by simp
    show "group (snd kb) = key a" if "kb \<in> set d" "a \<in> set (activities (snd kb))" for a kb
      using stored[OF that] by simp
    show "(\<Sum>kb\<leftarrow>d. mset (activities (snd kb))) = mset acts" by (rule total)
    show "group_activities get_group (acts @ [a]) =
                   Inr (case map_of d (key a) of
                          None \<Rightarrow> d @ [(key a, \<lparr>group = key a, activities = [a]\<rparr>)]
                        | Some b \<Rightarrow> AList.update (key a) (b\<lparr>activities := activities b @ [a]\<rparr>) d)"
      if "get_group a = Inr (key a)" for a
      using that by (rule next_one)
  qed
qed

theorem group_activities_complete_witness:
  "\<exists>d. group_activities (ModulusAggregator_get_group 3) example_activities = Inr d
      \<and> distinct (map fst d)
      \<and> fst ` set d = (\<lambda>a. object_id a mod 3) ` set example_activities
      \<and> (\<forall>a\<in>set example_activities. \<exists>!kb. kb \<in> set d \<and> a \<in> set (activities (snd kb)))
      \<and> (\<Sum>kb\<leftarrow>d. mset (activities (snd kb))) = mset example_activities"
proof -
  from group_activities_complete[OF example_keys]
  obtain d where "group_activities (ModulusAggregator_get_group 3) example_activities = Inr d"
    "distinct (map fst d)"
    "fst ` set d = (\<lambda>a. object_id a mod 3) ` set example_activities"
    "\<forall>a\<in>set example_activities. \<exists>!kb. kb \<in> set d \<and> a \<in> set (activities (snd kb))"
    "(\<Sum>kb\<leftarrow>d. mset (activities (snd kb))) = mset example_activities"
    by (elim exE conjE)
  then show ?thesis by (intro exI[of _ d] conjI)
qed

text \<open>
  Claim C6. Every bucket that \<^verbatim>\<open>group_activities\<close> returns holds the activities of its
  key in the order of the input: its sequence is the input filtered by the key, a
  subsequence of the input.
\<close>

theorem group_activities_order:
  assumes "\<forall>a\<in>set acts. get_group a = Inr (key a)"
  shows "\<exists>d. group_activities get_group acts = Inr d
           \<and> (\<forall>kb\<in>set d. activities (snd kb) = filter (\<lambda>a. key a = fst kb) acts
                          \<and> subseq (activities (snd kb)) acts)"
proof -
  from group_activities_char[of acts get_group key] assms
  obtain d where run: "group_activities get_group acts = Inr d"
    and char: "\<And>k b. (k, b) \<in> set d \<longleftrightarrow>
               k \<in> key ` set acts \<and> b = \<lparr>group = k, activities = filter (\<lambda>a. key a = k) acts\<rparr>"
    by blast
  have "activities (snd kb) = filter (\<lambda>a. key a = fst kb) acts \<and> subseq (activities (snd kb)) acts"
    if "kb \<in> set d" for kb
  proof -
    obtain k b where [simp]: "kb = (k, b)" by (cases kb)
    from that char[of k b] have "b = \<lparr>group = k, activities = filter (\<lambda>a. key a = k) acts\<rparr>"
      by simp
    then show ?thesis by simp
  qed
  with run show ?thesis by (intro exI[of _ d]) simp
qed

theorem group_activities_order_witness:
  "\<exists>d. group_activities (ModulusAggregator_get_group 3) example_activities = Inr d
      \<and> (\<forall>kb\<in>set d. activities (snd kb) = filter (\<lambda>a. object_id a mod 3 = fst kb) example_activities
                     \<and> subseq (activities (snd kb)) example_activities)"
  by (rule group_activities_order[OF example_keys])

section \<open>Ranking: results\<close>

lemma try_map_Inr:
  "(\<And>x. x \<in> set xs \<Longrightarrow> f x = Inr (k x)) \<Longrightarrow> try_map f xs = Inr (map k xs)"
  by (induction xs) auto

lemma insort_key_map:
  "insort_key f (g x) (map g ys) = map g (insort_key (\<lambda>x. f (g x)) x ys)"
  by (induction ys) auto

lemma sort_key_map: "sort_key f (map g xs) = map g (sort_key (\<lambda>x. f (g x)) xs)"
  by (induction xs) (auto simp: insort_key_map)

lemma zip_map_self: "zip (map k xs) xs = map (\<lambda>x. (k x, x)) xs"
  by (induction xs) auto

lemma undecorate:
  "map snd (sort_key fst (zip (map k xs) xs)) = sort_key k xs"
  by (simp add: zip_map_self sort_key_map comp_def)

lemma undecorate_rev:
  "map snd (rev (sort_key fst (rev (zip (map k xs) xs)))) = rev (sort_key k (rev xs))"
  by (simp add: zip_map_self sort_key_map comp_def rev_map)

lemma list_sort_Inr:
  assumes "\<And>x. x \<in> set xs \<Longrightarrow> key x = Inr (k x)"
  shows "list_sort key reverse xs = Inr (if reverse then rev (sort_key k (rev xs)) else sort_key k xs)"
  using try_map_Inr[of xs key k] assms
  by (simp add: list_sort_def undecorate undecorate_rev)

lemma py_max_Max: "xs \<noteq> [] \<Longrightarrow> py_max xs = Inr (Max (set xs))"
proof (cases xs)
  case Nil
  assume "xs \<noteq> []"
  with Nil show ?thesis by simp
next
  case (Cons x rest)
  have "fold max rest x = Max (set (x # rest))"
    by (rule Max.set_eq_fold[symmetric])
  with Cons show ?thesis by simp
qed

lemma ModulusAggregator_sort_key_Inr:
  "activities b \<noteq> [] \<Longrightarrow> ModulusAggregator_sort_key b = Inr (max_object_id b)"
  by (simp add: ModulusAggregator_sort_key_def max_object_id_def py_max_Max)

lemma ModulusAggregator_rank_Inr:
  assumes "\<And>b. b \<in> set xs \<Longrightarrow> activities b \<noteq> []"
  shows "ModulusAggregator_rank xs = Inr (sort_key max_object_id xs)"
  using list_sort_Inr[of xs ModulusAggregator_sort_key max_object_id False] assms
  by (simp add: ModulusAggregator_rank_def ModulusAggregator_sort_key_Inr)

lemma RecentVerbAggregator_rank_Inr:
  "RecentVerbAggregator_rank updated_at xs = Inr (rev (sort_key updated_at (rev xs)))"
  using list_sort_Inr[of xs "\<lambda>a. Inr (updated_at a)" updated_at True]
  by (simp add: RecentVerbAggregator_rank_def)

text \<open>
  Claim C7, amended. \<^verbatim>\<open>ModulusAggregator.rank\<close> returns a permutation of its input,
  sorted ascending by the largest activity id, for every sequence of buckets that each hold
  at least one activity; \<^verbatim>\<open>RecentVerbAggregator.rank\<close> returns a permutation of its
  input, sorted descending by \<open>updated_at\<close>, for every sequence. The result is a list of
  the same bucket values, so no group key and no activity sequence is changed.
\<close>

theorem rank_permutation:
  "((\<forall>b\<in>set xs. activities b \<noteq> []) \<longrightarrow>
      (\<exists>ys. ModulusAggregator_rank xs = Inr ys \<and> mset ys = mset xs
           \<and> sorted (map max_object_id ys)))
   \<and> (\<exists>zs. RecentVerbAggregator_rank updated_at bs = Inr zs \<and> mset zs = mset bs
           \<and> sorted (rev (map updated_at zs)))"
proof (intro conjI impI)
  assume "\<forall>b\<in>set xs. activities b \<noteq> []"
  then have "ModulusAggregator_rank xs = Inr (sort_key max_object_id xs)"
    by (simp add: ModulusAggregator_rank_Inr)
  then show "\<exists>ys. ModulusAggregator_rank xs = Inr ys \<and> mset ys = mset xs
           \<and> sorted (map max_object_id ys)"
    by simp
next
  have "sorted (rev (map updated_at (rev (sort_key updated_at (rev bs)))))"
    by (simp add: rev_map)
  then show "\<exists>zs. RecentVerbAggregator_rank updated_at bs = Inr zs \<and> mset zs = mset bs
           \<and> sorted (rev (map updated_at zs))"
    by (simp add: RecentVerbAggregator_rank_Inr)
qed

theorem rank_permutation_witness:
  "(\<exists>ys. ModulusAggregator_rank
            [\<lparr>group = 1::int, activities = [\<lparr>object_id = 1\<rparr>, \<lparr>object_id = 4\<rparr>]\<rparr>,
             \<lparr>group = 2, activities = [\<lparr>object_id = 2\<rparr>]\<rparr>] = Inr ys
         \<and> mset ys = mset [\<lparr>group = 1::int, activities = [\<lparr>object_id = 1\<rparr>, \<lparr>object_id = 4\<rparr>]\<rparr>,
             \<lparr>group = 2, activities = [\<lparr>object_id = 2\<rparr>]\<rparr>]
         \<and> sorted (map max_object_id ys))
   \<and> (\<exists>zs. RecentVerbAggregator_rank max_object_id
            [\<lparr>group = 2::int, activities = [\<lparr>object_id = 2\<rparr>]\<rparr>,
             \<lparr>group = 1, activities = [\<lparr>object_id = 1\<rparr>, \<lparr>object_id = 4\<rparr>]\<rparr>] = Inr zs
         \<and> mset zs = mset [\<lparr>group = 2::int, activities = [\<lparr>object_id = 2\<rparr>]\<rparr>,
             \<lparr>group = 1, activities = [\<lparr>object_id = 1\<rparr>, \<lparr>object_id = 4\<rparr>]\<rparr>]
         \<and> sorted (rev (map max_object_id zs)))"
proof -
  have "\<forall>b\<in>set [\<lparr>group = 1::int, activities = [\<lparr>object_id = 1\<rparr>, \<lparr>object_id = 4\<rparr>]\<rparr>,
             \<lparr>group = 2, activities = [\<lparr>object_id = 2\<rparr>]\<rparr>]. activities b \<noteq> []"
    by simp
  with rank_permutation[of
         "[\<lparr>group = 1::int, activities = [\<lparr>object_id = 1\<rparr>, \<lparr>object_id = 4\<rparr>]\<rparr>,
           \<lparr>group = 2, activities = [\<lparr>object_id = 2\<rparr>]\<rparr>]"
         max_object_id
         "[\<lparr>group = 2::int, activities = [\<lparr>object_id = 2\<rparr>]\<rparr>,
           \<lparr>group = 1, activities = [\<lparr>object_id = 1\<rparr>, \<lparr>object_id = 4\<rparr>]\<rparr>]"]
  show ?thesis by blast
qed

theorem rank_counterexample:
  "ModulusAggregator_rank [\<lparr>group = 0::int, activities = [] :: activity list\<rparr>]
     = Inl (ValueError ''max() arg is an empty sequence'')"
  by (simp add: ModulusAggregator_rank_def list_sort_def ModulusAggregator_sort_key_def)

text \<open>
  Claim C8, amended. The methods \<^verbatim>\<open>get_group\<close> and \<^verbatim>\<open>rank\<close> of the base strategy
  raise for every argument, and the exception is a \<^verbatim>\<open>ValueError\<close> with the message
  \<^verbatim>\<open>not implemented\<close>; so does \<^verbatim>\<open>aggregate\<close> of the base strategy, on every input.
\<close>

theorem base_strategy_raises:
  "BaseAggregator_get_group activity = Inl (ValueError ''not implemented'')
   \<and> BaseAggregator_rank aggregated_activities = Inl (ValueError ''not implemented'')
   \<and> aggregate BaseAggregator_get_group BaseAggregator_rank values acts
        = Inl (ValueError ''not implemented'')"
proof -
  have "aggregate BaseAggregator_get_group BaseAggregator_rank values acts
        = Inl (ValueError ''not implemented'')"
    by (cases acts)
       (simp_all add: aggregate_def group_activities_def BaseAggregator_get_group_def
          BaseAggregator_rank_def)
  then show ?thesis
    by (simp add: BaseAggregator_get_group_def BaseAggregator_rank_def)
qed

theorem base_strategy_counterexample:
  "\<not> (case (BaseAggregator_get_group \<lparr>object_id = 1\<rparr> :: py_error + int) of
         Inl e \<Rightarrow> is_NotImplementedError e
       | Inr g \<Rightarrow> False)"
  by (simp add: BaseAggregator_get_group_def)

section \<open>Aggregate: results\<close>

lemma modulus_grouping:
  assumes "object_id a1 = 1" "object_id a2 = 2" "object_id a3 = 3" "object_id a4 = 4"
  shows "group_activities (ModulusAggregator_get_group 3) [a1, a2, a3, a4] =
           Inr [(1, \<lparr>group = 1, activities = [a1, a4]\<rparr>),
                (2, \<lparr>group = 2, activities = [a2]\<rparr>),
                (0, \<lparr>group = 0, activities = [a3]\<rparr>)]"
  using assms
  by (simp add: group_activities_def group_activities_body_def ModulusAggregator_get_group_def
        aggregation_class_def AggregatedActivity_append_def)

lemma values_order_map_snd: "values_order (map snd)"
  by (simp add: values_order_def)

text \<open>
  Claim C9. With modulus 3, four activities with the ids 1, 2, 3 and 4, in this order, are
  grouped into the buckets 1: [1, 4], 2: [2] and 0: [3], and \<^verbatim>\<open>aggregate\<close> returns the
  buckets of the groups 2, 0 and 1, in this order, in whichever order the dictionary lists
  its values.
\<close>

theorem modulus_aggregate_scenario:
  assumes "values_order values"
      and "object_id a1 = 1 \<and> object_id a2 = 2 \<and> object_id a3 = 3 \<and> object_id a4 = 4"
  shows "group_activities (ModulusAggregator_get_group 3) [a1, a2, a3, a4] =
           Inr [(1, \<lparr>group = 1, activities = [a1, a4]\<rparr>),
                (2, \<lparr>group = 2, activities = [a2]\<rparr>),
                (0, \<lparr>group = 0, activities = [a3]\<rparr>)]
       \<and> ModulusAggregator_aggregate 3 values [a1, a2, a3, a4] =
           Inr [\<lparr>group = 2, activities = [a2]\<rparr>,
                \<lparr>group = 0, activities = [a3]\<rparr>,
                \<lparr>group = 1, activities = [a1, a4]\<rparr>]"
proof -
  let ?B1 = "\<lparr>group = 1::int, activities = [a1, a4]\<rparr>"
  let ?B2 = "\<lparr>group = 2::int, activities = [a2]\<rparr>"
  let ?B0 = "\<lparr>group = 0::int, activities = [a3]\<rparr>"
  let ?d = "[(1::int, ?B1), (2, ?B2), (0, ?B0)]"
  have run: "group_activities (ModulusAggregator_get_group 3) [a1, a2, a3, a4] = Inr ?d"
    using assms(2) by (simp add: modulus_grouping)
  have ms: "mset (values ?d) = mset [?B2, ?B0, ?B1]"
    using assms(1) by (simp add: values_order_def)
  then have st: "set (values ?d) = {?B2, ?B0, ?B1}"
    by (metis list.simps(15) set_mset_mset list.set(1))
  have k1: "max_object_id ?B1 = 4" and k2: "max_object_id ?B2 = 2" and k0: "max_object_id ?B0 = 3"
    using assms(2) by (simp_all add: max_object_id_def)
  have ne: "\<And>b. b \<in> set (values ?d) \<Longrightarrow> activities b \<noteq> []"
    unfolding st by auto
  have inj: "inj_on max_object_id (set (values ?d))"
    unfolding st using k1 k2 k0 by (auto simp: inj_on_def)
  have srt: "sorted (map max_object_id [?B2, ?B0, ?B1])"
    using k1 k2 k0 by simp
  have "sort_key max_object_id (values ?d) = [?B2, ?B0, ?B1]"
    using ms inj srt by (rule sort_key_inj_key_eq)
  then have "ModulusAggregator_rank (values ?d) = Inr [?B2, ?B0, ?B1]"
    using ModulusAggregator_rank_Inr[of "values ?d"] ne by simp
  then have "ModulusAggregator_aggregate 3 values [a1, a2, a3, a4] = Inr [?B2, ?B0, ?B1]"
    using run by (simp add: ModulusAggregator_aggregate_def aggregate_def)
  with run show ?thesis by simp
qed

theorem modulus_aggregate_scenario_witness:
  "ModulusAggregator_aggregate 3 (map snd) example_activities =
     Inr [\<lparr>group = 2, activities = [\<lparr>object_id = 2\<rparr>]\<rparr>,
          \<lparr>group = 0, activities = [\<lparr>object_id = 3\<rparr>]\<rparr>,
          \<lparr>group = 1, activities = [\<lparr>object_id = 1\<rparr>, \<lparr>object_id = 4\<rparr>]\<rparr>]"
  using modulus_aggregate_scenario[OF values_order_map_snd,
          of "\<lparr>object_id = 1\<rparr>" "\<lparr>object_id = 2\<rparr>" "\<lparr>object_id = 3\<rparr>" "\<lparr>object_id = 4\<rparr>"]
  by (simp add: example_activities_def)

text \<open>
  Claim C10. Every bucket in a dictionary returned by \<^verbatim>\<open>group_activities\<close> holds at
  least one activity. So the sort key of \<^verbatim>\<open>ModulusAggregator.rank\<close> is defined on each
  of the dictionary's values, the ranking returns, and an exception that leaves
  \<^verbatim>\<open>aggregate\<close> was raised by \<^verbatim>\<open>get_group\<close>, never by \<^verbatim>\<open>max\<close> on an empty list.
\<close>

theorem group_activities_buckets_nonempty:
  assumes "values_order values"
  shows "(\<forall>d. group_activities get_group acts = Inr d \<longrightarrow>
            (\<forall>kb\<in>set d. activities (snd kb) \<noteq> [])
          \<and> (\<forall>b\<in>set (values d). ModulusAggregator_sort_key b = Inr (max_object_id b))
          \<and> ModulusAggregator_rank (values d) = Inr (sort_key max_object_id (values d))
          \<and> aggregate get_group ModulusAggregator_rank values acts
               = Inr (sort_key max_object_id (values d)))
       \<and> (\<forall>e. aggregate get_group ModulusAggregator_rank values acts = Inl e \<longrightarrow>
               (\<exists>a\<in>set acts. get_group a = Inl e))"
proof (intro conjI allI impI)
  fix d
  assume run: "group_activities get_group acts = Inr d"
  show ne: "\<forall>kb\<in>set d. activities (snd kb) \<noteq> []"
    using group_activities_loop_nonempty[of get_group "[]" acts d] run
    by (simp add: group_activities_def)
  have "mset (values d) = mset (map snd d)"
    using assms by (simp add: values_order_def)
  then have "set (values d) = set (map snd d)" by (rule mset_eq_setD)
  then have ne': "activities b \<noteq> []" if "b \<in> set (values d)" for b
    using that ne by auto
  then show "\<forall>b\<in>set (values d). ModulusAggregator_sort_key b = Inr (max_object_id b)"
    by (simp add: ModulusAggregator_sort_key_Inr)
  show rank: "ModulusAggregator_rank (values d) = Inr (sort_key max_object_id (values d))"
    using ne' by (rule ModulusAggregator_rank_Inr)
  show "aggregate get_group ModulusAggregator_rank values acts
            = Inr (sort_key max_object_id (values d))"
    using run rank by (simp add: aggregate_def)
next
  fix e
  assume err: "aggregate get_group ModulusAggregator_rank values acts = Inl e"
  show "\<exists>a\<in>set acts. get_group a = Inl e"
  proof (cases "group_activities get_group acts")
    case (Inl e')
    with err have "e' = e" by (simp add: aggregate_def)
    with Inl show ?thesis
      using group_activities_loop_Inl[of get_group "[]" acts e]
      by (simp add: group_activities_def)
  next
    case (Inr d)
    have ne: "\<forall>kb\<in>set d. activities (snd kb) \<noteq> []"
      using group_activities_loop_nonempty[of get_group "[]" acts d] Inr
      by (simp add: group_activities_def)
    have "mset (values d) = mset (map snd d)"
      using assms by (simp add: values_order_def)
    then have "set (values d) = set (map snd d)" by (rule mset_eq_setD)
    then have "activities b \<noteq> []" if "b \<in> set (values d)" for b
      using that ne by auto
    then have "ModulusAggregator_rank (values d) = Inr (sort_key max_object_id (values d))"
      by (rule ModulusAggregator_rank_Inr)
    with Inr err show ?thesis by (simp add: aggregate_def)
  qed
qed

theorem group_activities_buckets_nonempty_witness:
  "[] \<notin> (\<lambda>kb. activities (snd kb)) `
            set [(1::int, \<lparr>group = 1::int, activities = [\<lparr>object_id = 1\<rparr>, \<lparr>object_id = 4\<rparr>]\<rparr>),
               (2, \<lparr>group = 2, activities = [\<lparr>object_id = 2\<rparr>]\<rparr>),
               (0, \<lparr>group = 0, activities = [\<lparr>object_id = 3\<rparr>]\<rparr>)]
   \<and> aggregate (ModulusAggregator_get_group 3) ModulusAggregator_rank (map snd) example_activities
       = Inr (sort_key max_object_id
               [\<lparr>group = 1::int, activities = [\<lparr>object_id = 1\<rparr>, \<lparr>object_id = 4\<rparr>]\<rparr>,
                \<lparr>group = 2, activities = [\<lparr>object_id = 2\<rparr>]\<rparr>,
                \<lparr>group = 0, activities = [\<lparr>object_id = 3\<rparr>]\<rparr>])"
proof -
  have run: "group_activities (ModulusAggregator_get_group 3) example_activities =
      Inr [(1::int, \<lparr>group = 1::int, activities = [\<lparr>object_id = 1\<rparr>, \<lparr>object_id = 4\<rparr>]\<rparr>),
               (2, \<lparr>group = 2, activities = [\<lparr>object_id = 2\<rparr>]\<rparr>),
               (0, \<lparr>group = 0, activities = [\<lparr>object_id = 3\<rparr>]\<rparr>)]"
    by (simp add: example_activities_def modulus_grouping)
  from group_activities_buckets_nonempty[OF values_order_map_snd,
          of "ModulusAggregator_get_group 3" example_activities] run
  show ?thesis by simp
qed

section \<open>Merge: the store\<close>

lemma get_object_valid:
  "r < length (object_heap s) \<Longrightarrow> get_object s r = Some (object_heap s ! r)"
  by (simp add: get_object_def)

lemma get_list_valid:
  "l < length (list_heap s) \<Longrightarrow> get_list s l = Some (list_heap s ! l)"
  by (simp add: get_list_def)

lemma wf_store_list:
  "wf_store s \<Longrightarrow> r < length (object_heap s) \<Longrightarrow> snd (object_heap s ! r) < length (list_heap s)"
  by (simp add: wf_store_def list_all_length case_prod_beta)

lemma read_bucket_valid:
  assumes "wf_store s" "r < length (object_heap s)"
  shows "read_bucket s r =
           Some \<lparr>group = fst (object_heap s ! r),
                 activities = list_heap s ! snd (object_heap s ! r)\<rparr>"
  using wf_store_list[OF assms] assms(2)
  by (cases "object_heap s ! r") (simp add: read_bucket_def get_object_def get_list_def)

lemma key_at_valid:
  "r < length (object_heap s) \<Longrightarrow> key_at s r = Some (fst (object_heap s ! r))"
  by (simp add: key_at_def get_object_def)

lemma append_activities_run:
  assumes "get_object s m = Some (g, lm)" "lm < length (list_heap s)" "l < length (list_heap s)"
      and "l \<noteq> lm" "i \<le> length (list_heap s ! l)"
  shows "append_activities s l i m =
           Some (s\<lparr>list_heap := (list_heap s)[lm := list_heap s ! lm @ drop i (list_heap s ! l)]\<rparr>)"
  using assms
proof (induction "length (list_heap s ! l) - i" arbitrary: s i)
  case 0
  then have "i = length (list_heap s ! l)" by simp
  with "0.prems" show ?case
    by (subst append_activities.simps) (simp add: get_list_def)
next
  case (Suc n)
  let ?xs = "list_heap s ! l"
  let ?s1 = "s\<lparr>list_heap := (list_heap s)[lm := list_heap s ! lm @ [?xs ! i]]\<rparr>"
  from Suc.hyps(2) have i: "i < length ?xs" by simp
  have ap: "append_object s m (?xs ! i) = Some ?s1"
    using Suc.prems by (simp add: append_object_def get_list_def)
  have l1: "list_heap ?s1 ! l = ?xs" using Suc.prems by simp
  have "append_activities ?s1 l (Suc i) m =
           Some (?s1\<lparr>list_heap := (list_heap ?s1)[lm := list_heap ?s1 ! lm @ drop (Suc i) (list_heap ?s1 ! l)]\<rparr>)"
  proof (rule Suc.hyps(1))
    show "n = length (list_heap ?s1 ! l) - Suc i" using Suc.hyps(2) l1 by simp
    show "get_object ?s1 m = Some (g, lm)" using Suc.prems(1) by (simp add: get_object_def split: if_splits)
    show "lm < length (list_heap ?s1)" using Suc.prems(2) by simp
    show "l < length (list_heap ?s1)" using Suc.prems(3) by simp
    show "l \<noteq> lm" by (rule Suc.prems(4))
    show "Suc i \<le> length (list_heap ?s1 ! l)" using i l1 by simp
  qed
  also have "\<dots> = Some (s\<lparr>list_heap := (list_heap s)[lm := list_heap s ! lm @ drop i ?xs]\<rparr>)"
    using Suc.prems i by (simp add: Cons_nth_drop_Suc)
  finally have rec: "append_activities ?s1 l (Suc i) m =
      Some (s\<lparr>list_heap := (list_heap s)[lm := list_heap s ! lm @ drop i ?xs]\<rparr>)" .
  show ?case
    apply (subst append_activities.simps)
    using Suc.prems i ap rec by (simp add: get_list_def)
qed

lemma merge_loop_miss:
  assumes "r < length (object_heap s)" "map_of d (fst (object_heap s ! r)) = None"
  shows "merge_loop s d (r # rest) new changed = merge_loop s d rest (new @ [r]) changed"
  using assms by (cases "object_heap s ! r") (simp add: get_object_def)

lemma merge_loop_hit:
  assumes "wf_store s" "r < length (object_heap s)" "cur < length (object_heap s)"
      and "map_of d (fst (object_heap s ! r)) = Some cur"
  shows "merge_loop s d (r # rest) new changed =
           merge_loop
             (s\<lparr>list_heap := list_heap s @
                    [list_heap s ! snd (object_heap s ! cur) @ list_heap s ! snd (object_heap s ! r)],
                object_heap := object_heap s @
                    [(fst (object_heap s ! cur), length (list_heap s))]\<rparr>)
             d rest new (changed @ [(cur, length (object_heap s))])"
proof -
  obtain g l where r: "object_heap s ! r = (g, l)" by (cases "object_heap s ! r")
  obtain gc lc where c: "object_heap s ! cur = (gc, lc)" by (cases "object_heap s ! cur")
  have l: "l < length (list_heap s)" using wf_store_list[OF assms(1,2)] r by simp
  have lc: "lc < length (list_heap s)" using wf_store_list[OF assms(1,3)] c by simp
  let ?s1 = "s\<lparr>list_heap := list_heap s @ [list_heap s ! lc],
                object_heap := object_heap s @ [(gc, length (list_heap s))]\<rparr>"
  have dc: "deepcopy s cur = Some (?s1, length (object_heap s))"
    using assms(3) c lc by (simp add: deepcopy_def get_object_def get_list_def)
  have g1: "get_object ?s1 r = Some (g, l)"
    using assms(2) r by (simp add: get_object_def nth_append)
  have "append_activities ?s1 l 0 (length (object_heap s)) =
          Some (?s1\<lparr>list_heap := (list_heap ?s1)[length (list_heap s) :=
                  list_heap ?s1 ! length (list_heap s) @ drop 0 (list_heap ?s1 ! l)]\<rparr>)"
  proof (rule append_activities_run)
    show "get_object ?s1 (length (object_heap s)) = Some (gc, length (list_heap s))"
      by (simp add: get_object_def)
    show "length (list_heap s) < length (list_heap ?s1)" by simp
    show "l < length (list_heap ?s1)" using l by simp
    show "l \<noteq> length (list_heap s)" using l by simp
    show "0 \<le> length (list_heap ?s1 ! l)" by simp
  qed
  then have ap: "append_activities ?s1 l 0 (length (object_heap s)) =
          Some (s\<lparr>list_heap := list_heap s @ [list_heap s ! lc @ list_heap s ! l],
                object_heap := object_heap s @ [(gc, length (list_heap s))]\<rparr>)"
    using l by (simp add: nth_append)
  show ?thesis
    using assms(2,4) r c dc g1 ap by (simp add: get_object_def)
qed

lemma prefix_nth: "prefix xs ys \<Longrightarrow> i < length xs \<Longrightarrow> ys ! i = xs ! i"
  by (auto simp: prefix_def nth_append)

lemma get_object_extend:
  "prefix (object_heap s) (object_heap s') \<Longrightarrow> r < length (object_heap s) \<Longrightarrow>
     get_object s' r = get_object s r"
  using prefix_length_le[of "object_heap s" "object_heap s'"]
  by (simp add: get_object_def prefix_nth)

lemma get_list_extend:
  "prefix (list_heap s) (list_heap s') \<Longrightarrow> l < length (list_heap s) \<Longrightarrow>
     get_list s' l = get_list s l"
  using prefix_length_le[of "list_heap s" "list_heap s'"]
  by (simp add: get_list_def prefix_nth)

lemma key_at_extend:
  "prefix (object_heap s) (object_heap s') \<Longrightarrow> r < length (object_heap s) \<Longrightarrow>
     key_at s' r = key_at s r"
  by (simp add: key_at_def get_object_extend)

lemma lookup_for_extend:
  "prefix (object_heap s) (object_heap s') \<Longrightarrow> r < length (object_heap s) \<Longrightarrow>
     lookup_for s' d r = lookup_for s d r"
  by (simp add: lookup_for_def key_at_extend)

lemma read_bucket_extend:
  assumes "wf_store s" "r < length (object_heap s)"
      and "prefix (object_heap s) (object_heap s')" "prefix (list_heap s) (list_heap s')"
  shows "read_bucket s' r = read_bucket s r"
proof -
  obtain g l where r: "object_heap s ! r = (g, l)" by (cases "object_heap s ! r")
  have l: "l < length (list_heap s)" using wf_store_list[OF assms(1,2)] r by simp
  have "get_object s' r = Some (g, l)" "get_object s r = Some (g, l)"
    using get_object_extend[OF assms(3,2)] assms(2) r by (simp_all add: get_object_def)
  then show ?thesis
    using get_list_extend[OF assms(4) l] by (simp add: read_bucket_def)
qed

lemma lookup_for_Some:
  "lookup_for s d r = Some c \<Longrightarrow> r < length (object_heap s) \<Longrightarrow>
     map_of d (fst (object_heap s ! r)) = Some c"
  by (simp add: lookup_for_def key_at_def get_object_def)

lemma lookup_for_None:
  "lookup_for s d r = None \<Longrightarrow> r < length (object_heap s) \<Longrightarrow>
     map_of d (fst (object_heap s ! r)) = None"
  by (simp add: lookup_for_def key_at_def get_object_def)

lemma merged_from_iff:
  "merged_from s s' r p \<longleftrightarrow>
     (\<exists>ov bv l.
        read_bucket s (fst p) = Some ov \<and> read_bucket s r = Some bv
      \<and> length (object_heap s) \<le> snd p
      \<and> get_object s' (snd p) = Some (group ov, l)
      \<and> length (list_heap s) \<le> l
      \<and> get_list s' l = Some (activities ov @ activities bv))"
  by (cases "read_bucket s (fst p)"; cases "read_bucket s r"; cases "get_object s' (snd p)")
     (auto simp: merged_from_def)

lemma merged_from_extend:
  assumes "merged_from s2 s' r p"
      and "wf_store s" "r < length (object_heap s)" "fst p < length (object_heap s)"
      and "prefix (object_heap s) (object_heap s2)" "prefix (list_heap s) (list_heap s2)"
  shows "merged_from s s' r p"
proof -
  from assms(1) obtain ov bv l where m:
      "read_bucket s2 (fst p) = Some ov" "read_bucket s2 r = Some bv"
      "length (object_heap s2) \<le> snd p" "get_object s' (snd p) = Some (group ov, l)"
      "length (list_heap s2) \<le> l" "get_list s' l = Some (activities ov @ activities bv)"
    unfolding merged_from_iff by blast
  have "read_bucket s (fst p) = Some ov"
    using read_bucket_extend[OF assms(2,4,5,6)] m(1) by simp
  moreover have "read_bucket s r = Some bv"
    using read_bucket_extend[OF assms(2,3,5,6)] m(2) by simp
  moreover have "length (object_heap s) \<le> snd p"
    using prefix_length_le[OF assms(5)] m(3) by simp
  moreover have "length (list_heap s) \<le> l"
    using prefix_length_le[OF assms(6)] m(5) by simp
  ultimately show ?thesis
    unfolding merged_from_iff using m(4,6) by blast
qed

lemma merge_loop_run:
  assumes "wf_store s"
      and "\<forall>r\<in>set rest. r < length (object_heap s)"
      and "\<forall>g c. map_of d g = Some c \<longrightarrow> c < length (object_heap s)"
  shows "\<exists>s' C. merge_loop s d rest new changed =
                  Some (s', new @ filter (\<lambda>r. lookup_for s d r = None) rest, changed @ C)
           \<and> wf_store s'
           \<and> prefix (object_heap s) (object_heap s') \<and> prefix (list_heap s) (list_heap s')
           \<and> list_all2 (\<lambda>r p. lookup_for s d r = Some (fst p) \<and> merged_from s s' r p)
                 (filter (\<lambda>r. lookup_for s d r \<noteq> None) rest) C
           \<and> map snd C = [length (object_heap s) ..< length (object_heap s) + length C]"
  using assms
proof (induction rest arbitrary: s new changed)
  case Nil
  show ?case
    by (intro exI[of _ s] exI[of _ "[]"]) (simp add: Nil.prems(1))
next
  case (Cons r rest)
  have r: "r < length (object_heap s)" using Cons.prems(2) by simp
  have rest: "\<forall>x\<in>set rest. x < length (object_heap s)" using Cons.prems(2) by simp
  show ?case
  proof (cases "lookup_for s d r")
    case None
    have step: "merge_loop s d (r # rest) new changed = merge_loop s d rest (new @ [r]) changed"
      using merge_loop_miss[OF r lookup_for_None[OF None r]] .
    from Cons.IH[OF Cons.prems(1) rest Cons.prems(3), of "new @ [r]" changed]
    obtain s' C where ih:
        "merge_loop s d rest (new @ [r]) changed =
           Some (s', (new @ [r]) @ filter (\<lambda>r. lookup_for s d r = None) rest, changed @ C)"
        "wf_store s'"
        "prefix (object_heap s) (object_heap s')" "prefix (list_heap s) (list_heap s')"
        "list_all2 (\<lambda>r p. lookup_for s d r = Some (fst p) \<and> merged_from s s' r p)
                 (filter (\<lambda>r. lookup_for s d r \<noteq> None) rest) C"
        "map snd C = [length (object_heap s) ..< length (object_heap s) + length C]"
      by blast
    show ?thesis
      using step ih None by (intro exI[of _ s'] exI[of _ C]) simp
  next
    case (Some cur)
    have look: "map_of d (fst (object_heap s ! r)) = Some cur"
      using lookup_for_Some[OF Some r] .
    have cur: "cur < length (object_heap s)" using Cons.prems(3) look by blast
    let ?s2 = "s\<lparr>list_heap := list_heap s @
                    [list_heap s ! snd (object_heap s ! cur) @ list_heap s ! snd (object_heap s ! r)],
                object_heap := object_heap s @
                    [(fst (object_heap s ! cur), length (list_heap s))]\<rparr>"
    have step: "merge_loop s d (r # rest) new changed =
                  merge_loop ?s2 d rest new (changed @ [(cur, length (object_heap s))])"
      using merge_loop_hit[OF Cons.prems(1) r cur look] .
    have wf2: "wf_store ?s2"
      using Cons.prems(1) by (auto simp: wf_store_def list_all_iff)
    have rest2: "\<forall>x\<in>set rest. x < length (object_heap ?s2)" using rest by auto
    have d2: "\<forall>g c. map_of d g = Some c \<longrightarrow> c < length (object_heap ?s2)"
      using Cons.prems(3) by (auto simp: less_Suc_eq)
    have po: "prefix (object_heap s) (object_heap ?s2)" by simp
    have pl: "prefix (list_heap s) (list_heap ?s2)" by simp
    from Cons.IH[OF wf2 rest2 d2, of new "changed @ [(cur, length (object_heap s))]"]
    obtain s' C where ih:
        "merge_loop ?s2 d rest new (changed @ [(cur, length (object_heap s))]) =
           Some (s', new @ filter (\<lambda>r. lookup_for ?s2 d r = None) rest,
                 (changed @ [(cur, length (object_heap s))]) @ C)"
        "wf_store s'"
        "prefix (object_heap ?s2) (object_heap s')" "prefix (list_heap ?s2) (list_heap s')"
        "list_all2 (\<lambda>r p. lookup_for ?s2 d r = Some (fst p) \<and> merged_from ?s2 s' r p)
                 (filter (\<lambda>r. lookup_for ?s2 d r \<noteq> None) rest) C"
        "map snd C = [length (object_heap ?s2) ..< length (object_heap ?s2) + length C]"
      by blast
    have same: "lookup_for ?s2 d x = lookup_for s d x" if "x \<in> set rest" for x
      using lookup_for_extend[OF po, of x d] rest that by blast
    have f1: "filter (\<lambda>r. lookup_for ?s2 d r = None) rest = filter (\<lambda>r. lookup_for s d r = None) rest"
      by (rule filter_cong) (simp_all add: same)
    have f2: "filter (\<lambda>r. lookup_for ?s2 d r \<noteq> None) rest = filter (\<lambda>r. lookup_for s d r \<noteq> None) rest"
      by (rule filter_cong) (simp_all add: same)
    have pos: "prefix (object_heap s) (object_heap s')"
      using po ih(3) by (rule prefix_order.trans)
    have pls: "prefix (list_heap s) (list_heap s')"
      using pl ih(4) by (rule prefix_order.trans)
    have tail: "list_all2 (\<lambda>r p. lookup_for s d r = Some (fst p) \<and> merged_from s s' r p)
                 (filter (\<lambda>r. lookup_for s d r \<noteq> None) rest) C"
    proof (rule list.rel_mono_strong[OF ih(5)[unfolded f2]])
      fix x p
      assume x: "x \<in> set (filter (\<lambda>r. lookup_for s d r \<noteq> None) rest)"
         and h: "lookup_for ?s2 d x = Some (fst p) \<and> merged_from ?s2 s' x p"
      from x have xr: "x \<in> set rest" by simp
      then have xv: "x < length (object_heap s)" using rest by blast
      have lk: "lookup_for s d x = Some (fst p)" using h same[OF xr] by simp
      have pv: "fst p < length (object_heap s)"
        using lookup_for_Some[OF lk xv] Cons.prems(3) by blast
      have "merged_from s s' x p"
        using merged_from_extend[of ?s2 s' x p s] h Cons.prems(1) xv pv po pl by blast
      with lk show "lookup_for s d x = Some (fst p) \<and> merged_from s s' x p" by simp
    qed
    have head: "merged_from s s' r (cur, length (object_heap s))"
    proof -
      let ?ov = "\<lparr>group = fst (object_heap s ! cur),
                   activities = list_heap s ! snd (object_heap s ! cur)\<rparr>"
      let ?bv = "\<lparr>group = fst (object_heap s ! r),
                   activities = list_heap s ! snd (object_heap s ! r)\<rparr>"
      have "read_bucket s cur = Some ?ov" by (rule read_bucket_valid[OF Cons.prems(1) cur])
      moreover have "read_bucket s r = Some ?bv" by (rule read_bucket_valid[OF Cons.prems(1) r])
      moreover have "get_object s' (length (object_heap s)) = Some (group ?ov, length (list_heap s))"
        using get_object_extend[OF ih(3), of "length (object_heap s)"]
        by (simp add: get_object_def)
      moreover have "get_list s' (length (list_heap s)) = Some (activities ?ov @ activities ?bv)"
        using get_list_extend[OF ih(4), of "length (list_heap s)"]
        by (simp add: get_list_def)
      ultimately show ?thesis
        unfolding merged_from_iff by (intro exI[of _ ?ov] exI[of _ ?bv] exI[of _ "length (list_heap s)"]) simp
    qed
    have addrs: "map snd ((cur, length (object_heap s)) # C) =
        [length (object_heap s) ..< length (object_heap s) + length ((cur, length (object_heap s)) # C)]"
    proof -
      have "map snd C = [Suc (length (object_heap s)) ..< Suc (length (object_heap s)) + length C]"
        using ih(6) by (simp del: upt_Suc)
      then have "map snd ((cur, length (object_heap s)) # C) =
          length (object_heap s) # [Suc (length (object_heap s)) ..< Suc (length (object_heap s)) + length C]"
        by (simp del: upt_Suc)
      also have "\<dots> = [length (object_heap s) ..< length (object_heap s) + Suc (length C)]"
        using upt_conv_Cons[of "length (object_heap s)" "length (object_heap s) + Suc (length C)"]
        by (simp del: upt_Suc)
      finally show ?thesis by (simp del: upt_Suc)
    qed
    show ?thesis
    proof (intro exI[of _ s'] exI[of _ "(cur, length (object_heap s)) # C"] conjI)
      show "merge_loop s d (r # rest) new changed =
         Some (s', new @ filter (\<lambda>r. lookup_for s d r = None) (r # rest),
               changed @ (cur, length (object_heap s)) # C)"
        using step ih(1) f1 Some by simp
      show "wf_store s'" by (rule ih(2))
      show "prefix (object_heap s) (object_heap s')" by (rule pos)
      show "prefix (list_heap s) (list_heap s')" by (rule pls)
      show "list_all2 (\<lambda>r p. lookup_for s d r = Some (fst p) \<and> merged_from s s' r p)
                 (filter (\<lambda>r. lookup_for s d r \<noteq> None) (r # rest)) ((cur, length (object_heap s)) # C)"
        using Some head tail by simp
      show "map snd ((cur, length (object_heap s)) # C) =
        [length (object_heap s) ..< length (object_heap s) + length ((cur, length (object_heap s)) # C)]"
        by (rule addrs)
    qed
  qed
qed

lemma group_pairs_valid:
  "\<forall>a\<in>set aggregated. a < length (object_heap s) \<Longrightarrow>
     group_pairs s aggregated = Some (map (\<lambda>a. (fst (object_heap s ! a), a)) aggregated)"
proof (induction aggregated)
  case Nil
  then show ?case by simp
next
  case (Cons a aggregated)
  then show ?case
    by (cases "object_heap s ! a") (simp add: get_object_def)
qed

lemma map_of_foldl_update:
  "map_of (foldl (\<lambda>d (k, v). AList.update k v d) d ps) g =
     (case map_of (rev ps) g of Some v \<Rightarrow> Some v | None \<Rightarrow> map_of d g)"
proof (induction ps arbitrary: d)
  case Nil
  then show ?case by simp
next
  case (Cons p ps)
  obtain k v where p: "p = (k, v)" by (cases p)
  show ?case
    unfolding p by (simp add: Cons.IH update_conv' map_add_def split: option.splits)
qed

lemma map_of_dict_of: "map_of (dict_of ps) g = map_of (rev ps) g"
  by (simp add: dict_of_def map_of_foldl_update split: option.splits)

lemma map_of_keyed: "map_of (map (\<lambda>a. (k a, a)) xs) g = find (\<lambda>a. k a = g) xs"
  by (induction xs) auto

lemma find_cong_set: "(\<And>x. x \<in> set xs \<Longrightarrow> P x = Q x) \<Longrightarrow> find P xs = find Q xs"
  by (induction xs) auto

lemma dict_is_old_bucket:
  assumes "\<forall>a\<in>set aggregated. a < length (object_heap s)"
  shows "map_of (dict_of (map (\<lambda>a. (fst (object_heap s ! a), a)) aggregated)) g =
           old_bucket s aggregated g"
proof -
  have "map_of (dict_of (map (\<lambda>a. (fst (object_heap s ! a), a)) aggregated)) g =
          find (\<lambda>a. fst (object_heap s ! a) = g) (rev aggregated)"
    by (simp add: map_of_dict_of rev_map map_of_keyed)
  also have "\<dots> = find (\<lambda>a. key_at s a = Some g) (rev aggregated)"
    using assms by (intro find_cong_set) (simp add: key_at_valid)
  finally show ?thesis by (simp add: old_bucket_def)
qed

lemma find_Some_set: "find P xs = Some x \<Longrightarrow> x \<in> set xs \<and> P x"
  by (induction xs) (auto split: if_splits)

lemma old_bucket_Some:
  "old_bucket s aggregated g = Some c \<Longrightarrow> c \<in> set aggregated \<and> key_at s c = Some g"
  using find_Some_set[of "\<lambda>a. key_at s a = Some g" "rev aggregated" c]
  by (simp add: old_bucket_def)

lemma old_for_Some:
  "old_for s aggregated r = Some c \<Longrightarrow> c \<in> set aggregated \<and> key_at s c = key_at s r"
  by (cases "key_at s r") (auto simp: old_for_def dest: old_bucket_Some)

lemma merge_run:
  assumes "wf_store s"
      and "\<forall>r\<in>set aggregated. r < length (object_heap s)"
      and "\<forall>r\<in>set new_aggregated. r < length (object_heap s)"
  shows "\<exists>s' C. merge s aggregated new_aggregated =
                  Some (s', filter (\<lambda>r. old_for s aggregated r = None) new_aggregated, C, [])
           \<and> wf_store s'
           \<and> prefix (object_heap s) (object_heap s') \<and> prefix (list_heap s) (list_heap s')
           \<and> list_all2 (\<lambda>r p. old_for s aggregated r = Some (fst p) \<and> merged_from s s' r p)
                 (filter (\<lambda>r. old_for s aggregated r \<noteq> None) new_aggregated) C
           \<and> map snd C = [length (object_heap s) ..< length (object_heap s) + length C]"
proof -
  let ?d = "dict_of (map (\<lambda>a. (fst (object_heap s ! a), a)) aggregated)"
  have gp: "group_pairs s aggregated = Some (map (\<lambda>a. (fst (object_heap s ! a), a)) aggregated)"
    using assms(2) by (rule group_pairs_valid)
  have same: "lookup_for s ?d r = old_for s aggregated r" for r
    by (cases "key_at s r") (simp_all add: lookup_for_def old_for_def dict_is_old_bucket[OF assms(2)])
  have dv: "\<forall>g c. map_of ?d g = Some c \<longrightarrow> c < length (object_heap s)"
    using assms(2) old_bucket_Some[of s aggregated] by (auto simp: dict_is_old_bucket[OF assms(2)])
  from merge_loop_run[OF assms(1) assms(3) dv, of "[]" "[]"]
  obtain s' C where run:
      "merge_loop s ?d new_aggregated [] [] =
         Some (s', [] @ filter (\<lambda>r. lookup_for s ?d r = None) new_aggregated, [] @ C)"
      "wf_store s'"
      "prefix (object_heap s) (object_heap s')" "prefix (list_heap s) (list_heap s')"
      "list_all2 (\<lambda>r p. lookup_for s ?d r = Some (fst p) \<and> merged_from s s' r p)
                 (filter (\<lambda>r. lookup_for s ?d r \<noteq> None) new_aggregated) C"
      "map snd C = [length (object_heap s) ..< length (object_heap s) + length C]"
    by blast
  have "merge s aggregated new_aggregated =
                  Some (s', filter (\<lambda>r. old_for s aggregated r = None) new_aggregated, C, [])"
    using gp run(1) by (simp add: merge_def same)
  moreover have "list_all2 (\<lambda>r p. old_for s aggregated r = Some (fst p) \<and> merged_from s s' r p)
                 (filter (\<lambda>r. old_for s aggregated r \<noteq> None) new_aggregated) C"
    using run(5) by (simp add: same)
  ultimately show ?thesis
    using run(2,3,4,6) by (intro exI[of _ s'] exI[of _ C]) simp
qed

lemma list_all2_right:
  "list_all2 R xs ys \<Longrightarrow> y \<in> set ys \<Longrightarrow> \<exists>x\<in>set xs. R x y"
  by (induction rule: list_all2_induct) auto

lemma merged_from_read:
  assumes "merged_from s s' r p"
  shows "\<exists>ov bv. read_bucket s (fst p) = Some ov \<and> read_bucket s r = Some bv
           \<and> read_bucket s' (snd p) = Some \<lparr>group = group ov, activities = activities ov @ activities bv\<rparr>"
proof -
  from assms obtain ov bv l where m:
      "read_bucket s (fst p) = Some ov" "read_bucket s r = Some bv"
      "get_object s' (snd p) = Some (group ov, l)"
      "get_list s' l = Some (activities ov @ activities bv)"
    unfolding merged_from_iff by blast
  have "read_bucket s' (snd p) = Some \<lparr>group = group ov, activities = activities ov @ activities bv\<rparr>"
    using m(3,4) by (simp add: read_bucket_def)
  with m(1,2) show ?thesis by blast
qed

lemma read_bucket_key: "read_bucket s r = Some b \<Longrightarrow> key_at s r = Some (group b)"
  by (cases "get_object s r")
     (auto simp: read_bucket_def key_at_def split: option.splits prod.splits)

section \<open>Merge: results\<close>

lemma example_store_wf: "wf_store example_store"
  by (simp add: wf_store_def example_store_def)

lemma list_all2_filter:
  assumes "list_all2 R xs ys" "\<And>x y. R x y \<Longrightarrow> P x = Q y"
  shows "list_all2 R (filter P xs) (filter Q ys)"
  using assms(1)
proof (induction rule: list_all2_induct)
  case Nil
  then show ?case by simp
next
  case (Cons x xs y ys)
  have "P x = Q y" using assms(2)[OF Cons.hyps(1)] .
  with Cons.hyps(1) Cons.IH show ?case by simp
qed

text \<open>
  Claim C1, amended. Let the bucket \<open>b\<close> of the new generation have a key that the old
  generation has too, and let \<open>c\<close> be the old bucket with that key (the last one, when the
  old generation repeats the key). Then \<^verbatim>\<open>merge\<close> returns, and the pairs of
  \<^verbatim>\<open>changed\<close> whose old bucket has that key correspond, one to one and in order, to the
  buckets of the new generation with that key: each such pair is \<open>(c, m)\<close>, where the
  merged bucket \<open>m\<close> holds the activities of \<open>c\<close> followed by the activities of its new
  bucket, in this order. So when \<open>b\<close> is the only bucket of the new generation with the
  key, exactly one pair of \<^verbatim>\<open>changed\<close> is for the key, and it holds the activities of
  \<open>c\<close> followed by those of \<open>b\<close>.
\<close>

theorem merge_append_only:
  assumes "wf_store s"
      and "\<forall>r\<in>set aggregated. r < length (object_heap s)"
      and "\<forall>r\<in>set new_aggregated. r < length (object_heap s)"
      and "b \<in> set new_aggregated" and "read_bucket s b = Some bv"
      and "old_bucket s aggregated (group bv) = Some c"
  shows "\<exists>s' new changed ov. merge s aggregated new_aggregated = Some (s', new, changed, [])
           \<and> c \<in> set aggregated \<and> read_bucket s c = Some ov \<and> group ov = group bv
           \<and> list_all2
                (\<lambda>r p. fst p = c \<and>
                   (\<exists>rv. read_bucket s r = Some rv \<and>
                      read_bucket s' (snd p) =
                        Some \<lparr>group = group bv, activities = activities ov @ activities rv\<rparr>))
                (filter (\<lambda>r. key_at s r = Some (group bv)) new_aggregated)
                (filter (\<lambda>p. key_at s (fst p) = Some (group bv)) changed)
           \<and> (filter (\<lambda>r. key_at s r = Some (group bv)) new_aggregated = [b] \<longrightarrow>
                (\<exists>m. filter (\<lambda>p. key_at s (fst p) = Some (group bv)) changed = [(c, m)]
                   \<and> read_bucket s' m =
                        Some \<lparr>group = group bv, activities = activities ov @ activities bv\<rparr>))"
proof -
  let ?g = "group bv"
  let ?P = "\<lambda>r. key_at s r = Some ?g"
  let ?Q = "\<lambda>p::addr \<times> addr. key_at s (fst p) = Some ?g"
  from merge_run[OF assms(1,2,3)] obtain s' C where run:
      "merge s aggregated new_aggregated =
         Some (s', filter (\<lambda>r. old_for s aggregated r = None) new_aggregated, C, [])"
      "list_all2 (\<lambda>r p. old_for s aggregated r = Some (fst p) \<and> merged_from s s' r p)
                 (filter (\<lambda>r. old_for s aggregated r \<noteq> None) new_aggregated) C"
    by blast
  have om: "c \<in> set aggregated" "key_at s c = Some ?g"
    using old_bucket_Some[OF assms(6)] by simp_all
  have cv: "c < length (object_heap s)" using om(1) assms(2) by blast
  obtain ov where ov: "read_bucket s c = Some ov"
    using read_bucket_valid[OF assms(1) cv] by blast
  have gov: "group ov = ?g"
    using read_bucket_key[OF ov] om(2) by simp
  have keys: "?P r = ?Q p"
    if "old_for s aggregated r = Some (fst p) \<and> merged_from s s' r p" for r p
    using old_for_Some[of s aggregated r "fst p"] that by simp
  have f1: "list_all2 (\<lambda>r p. old_for s aggregated r = Some (fst p) \<and> merged_from s s' r p)
              (filter ?P (filter (\<lambda>r. old_for s aggregated r \<noteq> None) new_aggregated))
              (filter ?Q C)"
    using run(2) keys by (rule list_all2_filter)
  have hit: "old_for s aggregated r = Some c" if "?P r" for r
    using that assms(6) by (simp add: old_for_def)
  have f2: "filter ?P (filter (\<lambda>r. old_for s aggregated r \<noteq> None) new_aggregated)
              = filter ?P new_aggregated"
    using hit by (auto simp: filter_filter intro!: filter_cong)
  have rel: "list_all2
                (\<lambda>r p. fst p = c \<and>
                   (\<exists>rv. read_bucket s r = Some rv \<and>
                      read_bucket s' (snd p) =
                        Some \<lparr>group = ?g, activities = activities ov @ activities rv\<rparr>))
                (filter ?P new_aggregated) (filter ?Q C)"
  proof (rule list.rel_mono_strong[OF f1[unfolded f2]])
    fix r p
    assume r: "r \<in> set (filter ?P new_aggregated)"
       and h: "old_for s aggregated r = Some (fst p) \<and> merged_from s s' r p"
    from r have "?P r" by simp
    then have fp: "fst p = c" using hit[of r] h by simp
    from h merged_from_read[of s s' r p] obtain ov' rv where rd:
        "read_bucket s (fst p) = Some ov'" "read_bucket s r = Some rv"
        "read_bucket s' (snd p) = Some \<lparr>group = group ov', activities = activities ov' @ activities rv\<rparr>"
      by blast
    have "ov' = ov" using rd(1) fp ov by simp
    with rd(2,3) gov fp
    show "fst p = c \<and>
                   (\<exists>rv. read_bucket s r = Some rv \<and>
                      read_bucket s' (snd p) =
                        Some \<lparr>group = ?g, activities = activities ov @ activities rv\<rparr>)"
      by simp
  qed
  have single: "\<exists>m. filter ?Q C = [(c, m)]
                   \<and> read_bucket s' m =
                        Some \<lparr>group = ?g, activities = activities ov @ activities bv\<rparr>"
    if one: "filter ?P new_aggregated = [b]"
  proof -
    from rel[unfolded one] obtain p where p: "filter ?Q C = [p]" "fst p = c"
        "\<exists>rv. read_bucket s b = Some rv \<and>
              read_bucket s' (snd p) = Some \<lparr>group = ?g, activities = activities ov @ activities rv\<rparr>"
      by (auto simp: list_all2_Cons1)
    have "p = (c, snd p)" using p(2) by (cases p) simp
    with p(1,3) assms(5) show ?thesis by (intro exI[of _ "snd p"]) auto
  qed
  show ?thesis
  proof (intro exI[of _ s'] exI[of _ C] exI[of _ ov]
           exI[of _ "filter (\<lambda>r. old_for s aggregated r = None) new_aggregated"] conjI impI)
    show "merge s aggregated new_aggregated =
         Some (s', filter (\<lambda>r. old_for s aggregated r = None) new_aggregated, C, [])" by (rule run(1))
    show "c \<in> set aggregated" by (rule om(1))
    show "read_bucket s c = Some ov" by (rule ov)
    show "group ov = group bv" by (rule gov)
    show "list_all2
                (\<lambda>r p. fst p = c \<and>
                   (\<exists>rv. read_bucket s r = Some rv \<and>
                      read_bucket s' (snd p) =
                        Some \<lparr>group = group bv, activities = activities ov @ activities rv\<rparr>))
                (filter ?P new_aggregated) (filter ?Q C)" by (rule rel)
    show "\<exists>m. filter ?Q C = [(c, m)]
                   \<and> read_bucket s' m =
                        Some \<lparr>group = group bv, activities = activities ov @ activities bv\<rparr>"
      if "filter ?P new_aggregated = [b]"
      using that by (rule single)
  qed
qed

theorem merge_append_only_witness:
  "\<exists>s' new changed m ov. merge example_store [0] [1, 2] = Some (s', new, changed, [])
           \<and> read_bucket example_store 0 = Some ov
           \<and> filter (\<lambda>p. key_at example_store (fst p) = Some ''a'') changed = [(0, m)]
           \<and> read_bucket s' m =
               Some \<lparr>group = ''a'', activities = activities ov @ [\<lparr>object_id = 2\<rparr>]\<rparr>"
proof -
  let ?bv = "\<lparr>group = ''a'', activities = [\<lparr>object_id = 2\<rparr>]\<rparr>"
  have h1: "\<forall>r\<in>set [0]. r < length (object_heap example_store)" by (simp add: example_store_def)
  have h2: "\<forall>r\<in>set [1, 2]. r < length (object_heap example_store)" by (simp add: example_store_def)
  have h3: "1 \<in> set [1, 2::nat]" by simp
  have h4: "read_bucket example_store 1 = Some ?bv"
    by (simp add: read_bucket_def get_object_def get_list_def example_store_def)
  have h5: "old_bucket example_store [0] (group ?bv) = Some 0"
    by (simp add: old_bucket_def key_at_def get_object_def example_store_def)
  have one: "filter (\<lambda>r. key_at example_store r = Some (group ?bv)) [1, 2] = [1]"
    by (simp add: key_at_def get_object_def example_store_def)
  from merge_append_only[OF example_store_wf h1 h2 h3 h4 h5]
  obtain s' new changed ov where r:
      "merge example_store [0] [1, 2] = Some (s', new, changed, [])"
      "read_bucket example_store 0 = Some ov"
      "filter (\<lambda>r. key_at example_store r = Some (group ?bv)) [1, 2] = [1] \<longrightarrow>
                (\<exists>m. filter (\<lambda>p. key_at example_store (fst p) = Some (group ?bv)) changed = [(0, m)]
                   \<and> read_bucket s' m =
                        Some \<lparr>group = group ?bv, activities = activities ov @ activities ?bv\<rparr>)"
    by blast
  from r(3) one obtain m where m:
      "filter (\<lambda>p. key_at example_store (fst p) = Some (group ?bv)) changed = [(0, m)]"
      "read_bucket s' m = Some \<lparr>group = group ?bv, activities = activities ov @ activities ?bv\<rparr>"
    by blast
  show ?thesis
    using r(1,2) m by (intro exI[of _ s'] exI[of _ new] exI[of _ changed] exI[of _ m] exI[of _ ov]) simp
qed

theorem merge_append_only_counterexample:
  "merge duplicate_store [0] [1, 2] =
     Some (\<lparr>object_heap = [(''a'', 0), (''a'', 1), (''a'', 2), (''a'', 3), (''a'', 4)],
            list_heap = [[\<lparr>object_id = 1\<rparr>], [\<lparr>object_id = 2\<rparr>], [\<lparr>object_id = 3\<rparr>],
                         [\<lparr>object_id = 1\<rparr>, \<lparr>object_id = 2\<rparr>],
                         [\<lparr>object_id = 1\<rparr>, \<lparr>object_id = 3\<rparr>]]\<rparr>,
           [], [(0, 3), (0, 4)], [])
   \<and> length (filter (\<lambda>p. key_at duplicate_store (fst p) = Some ''a'') [(0, 3), (0, 4)]) = 2"
  by (simp add: merge_def duplicate_store_def get_object_def dict_of_def deepcopy_def get_list_def
        append_activities.simps append_object_def key_at_def)

text \<open>
  Claim C2. \<^verbatim>\<open>merge\<close> returns and leaves every object that was in the store as it was:
  every bucket object and every list object, so every bucket of the old generation has the
  group key and the activity sequence it had before the call. The second component of
  every pair of \<^verbatim>\<open>changed\<close> is a bucket object that the merge allocated, with a list
  object that the merge allocated: it is not the old bucket of its pair, nor any bucket of
  the old or the new generation, and it shares no list with them. The merged buckets are
  pairwise distinct objects.
\<close>

theorem merge_non_mutation:
  assumes "wf_store s"
      and "\<forall>r\<in>set aggregated. r < length (object_heap s)"
      and "\<forall>r\<in>set new_aggregated. r < length (object_heap s)"
  shows "\<exists>s' new changed. merge s aggregated new_aggregated = Some (s', new, changed, [])
           \<and> (\<forall>r<length (object_heap s). get_object s' r = get_object s r)
           \<and> (\<forall>l<length (list_heap s). get_list s' l = get_list s l)
           \<and> (\<forall>r\<in>set aggregated. \<exists>b. read_bucket s r = Some b \<and> read_bucket s' r = Some b)
           \<and> (\<forall>p\<in>set changed.
                  fst p \<in> set aggregated \<and> snd p \<noteq> fst p
                \<and> snd p \<notin> set aggregated \<and> snd p \<notin> set new_aggregated
                \<and> length (object_heap s) \<le> snd p
                \<and> (\<exists>g l. get_object s' (snd p) = Some (g, l) \<and> length (list_heap s) \<le> l))
           \<and> distinct (map snd changed)"
proof -
  from merge_run[OF assms] obtain s' C where run:
      "merge s aggregated new_aggregated =
         Some (s', filter (\<lambda>r. old_for s aggregated r = None) new_aggregated, C, [])"
      "prefix (object_heap s) (object_heap s')" "prefix (list_heap s) (list_heap s')"
      "list_all2 (\<lambda>r p. old_for s aggregated r = Some (fst p) \<and> merged_from s s' r p)
                 (filter (\<lambda>r. old_for s aggregated r \<noteq> None) new_aggregated) C"
      "map snd C = [length (object_heap s) ..< length (object_heap s) + length C]"
    by blast
  have objs: "\<forall>r<length (object_heap s). get_object s' r = get_object s r"
    using get_object_extend[OF run(2)] by blast
  have lsts: "\<forall>l<length (list_heap s). get_list s' l = get_list s l"
    using get_list_extend[OF run(3)] by blast
  have olds: "\<exists>b. read_bucket s r = Some b \<and> read_bucket s' r = Some b" if "r \<in> set aggregated" for r
  proof -
    have r: "r < length (object_heap s)" using assms(2) that by blast
    show ?thesis
      using read_bucket_valid[OF assms(1) r] read_bucket_extend[OF assms(1) r run(2,3)] by simp
  qed
  have pairs: "fst p \<in> set aggregated \<and> snd p \<noteq> fst p
                \<and> snd p \<notin> set aggregated \<and> snd p \<notin> set new_aggregated
                \<and> length (object_heap s) \<le> snd p
                \<and> (\<exists>g l. get_object s' (snd p) = Some (g, l) \<and> length (list_heap s) \<le> l)"
    if "p \<in> set C" for p
  proof -
    from list_all2_right[OF run(4) that] obtain r where
      r: "old_for s aggregated r = Some (fst p)" "merged_from s s' r p" by blast
    have old: "fst p \<in> set aggregated" using old_for_Some[OF r(1)] by simp
    from r(2) obtain ov l where m0: "read_bucket s (fst p) = Some ov"
        and m: "length (object_heap s) \<le> snd p"
        "get_object s' (snd p) = Some (group ov, l)" "length (list_heap s) \<le> l"
      unfolding merged_from_iff by blast
    have "snd p \<noteq> fst p" using m(1) old assms(2) by force
    moreover have "snd p \<notin> set aggregated" using m(1) assms(2) by force
    moreover have "snd p \<notin> set new_aggregated" using m(1) assms(3) by force
    ultimately show ?thesis using old m by blast
  qed
  have dist: "distinct (map snd C)" unfolding run(5) by simp
  show ?thesis
  proof (intro exI[of _ s'] exI[of _ C] exI[of _ "filter (\<lambda>r. old_for s aggregated r = None) new_aggregated"] conjI)
    show "merge s aggregated new_aggregated =
         Some (s', filter (\<lambda>r. old_for s aggregated r = None) new_aggregated, C, [])" by (rule run(1))
    show "\<forall>r<length (object_heap s). get_object s' r = get_object s r" by (rule objs)
    show "\<forall>l<length (list_heap s). get_list s' l = get_list s l" by (rule lsts)
    show "\<forall>r\<in>set aggregated. \<exists>b. read_bucket s r = Some b \<and> read_bucket s' r = Some b"
      using olds by blast
    show "\<forall>p\<in>set C.
                  fst p \<in> set aggregated \<and> snd p \<noteq> fst p
                \<and> snd p \<notin> set aggregated \<and> snd p \<notin> set new_aggregated
                \<and> length (object_heap s) \<le> snd p
                \<and> (\<exists>g l. get_object s' (snd p) = Some (g, l) \<and> length (list_heap s) \<le> l)"
      using pairs by blast
    show "distinct (map snd C)" by (rule dist)
  qed
qed

theorem merge_non_mutation_witness:
  "\<exists>s' new changed. merge example_store [0] [1, 2] = Some (s', new, changed, [])
           \<and> (\<forall>r<length (object_heap example_store). get_object s' r = get_object example_store r)
           \<and> (\<forall>l<length (list_heap example_store). get_list s' l = get_list example_store l)
           \<and> (\<forall>r\<in>set [0]. \<exists>b. read_bucket example_store r = Some b \<and> read_bucket s' r = Some b)
           \<and> (\<forall>p\<in>set changed.
                  fst p \<in> set [0] \<and> snd p \<noteq> fst p
                \<and> snd p \<notin> set [0] \<and> snd p \<notin> set [1, 2]
                \<and> length (object_heap example_store) \<le> snd p
                \<and> (\<exists>g l. get_object s' (snd p) = Some (g, l) \<and> length (list_heap example_store) \<le> l))
           \<and> distinct (map snd changed)"
  by (rule merge_non_mutation[OF example_store_wf]) (simp_all add: example_store_def)

text \<open>
  Claim C3, amended. \<^verbatim>\<open>merge\<close> returns, and it accounts for every bucket of the new
  generation once: the buckets whose key the old generation lacks are the list \<^verbatim>\<open>new\<close>,
  in the order of the new generation, and the buckets whose key the old generation has
  give the pairs of \<^verbatim>\<open>changed\<close>, one pair for each bucket, in the same order. The second
  component of a pair is the merged copy, an object allocated by the merge that holds the
  old bucket's activities followed by the bucket's own; it is never a bucket of the new
  generation.
\<close>

theorem merge_totality:
  assumes "wf_store s"
      and "\<forall>r\<in>set aggregated. r < length (object_heap s)"
      and "\<forall>r\<in>set new_aggregated. r < length (object_heap s)"
  shows "\<exists>s' new changed. merge s aggregated new_aggregated = Some (s', new, changed, [])
           \<and> new = filter (\<lambda>r. old_for s aggregated r = None) new_aggregated
           \<and> subseq new new_aggregated
           \<and> list_all2 (\<lambda>r p. old_for s aggregated r = Some (fst p) \<and> merged_from s s' r p)
                 (filter (\<lambda>r. old_for s aggregated r \<noteq> None) new_aggregated) changed
           \<and> length new + length changed = length new_aggregated
           \<and> set (map snd changed) \<inter> set new_aggregated = {}"
proof -
  from merge_run[OF assms] obtain s' C where run:
      "merge s aggregated new_aggregated =
         Some (s', filter (\<lambda>r. old_for s aggregated r = None) new_aggregated, C, [])"
      "list_all2 (\<lambda>r p. old_for s aggregated r = Some (fst p) \<and> merged_from s s' r p)
                 (filter (\<lambda>r. old_for s aggregated r \<noteq> None) new_aggregated) C"
      "map snd C = [length (object_heap s) ..< length (object_heap s) + length C]"
    by blast
  have len: "length (filter (\<lambda>r. old_for s aggregated r = None) new_aggregated) + length C
               = length new_aggregated"
    using list_all2_lengthD[OF run(2)]
          sum_length_filter_compl[of "\<lambda>r. old_for s aggregated r = None" new_aggregated]
    by simp
  have disj: "set (map snd C) \<inter> set new_aggregated = {}"
    unfolding run(3) using assms(3) by auto
  show ?thesis
    using run(1,2) len disj
    by (intro exI[of _ s'] exI[of _ C] exI[of _ "filter (\<lambda>r. old_for s aggregated r = None) new_aggregated"])
       simp
qed

theorem merge_totality_witness:
  "\<exists>s' new changed. merge example_store [0] [1, 2] = Some (s', new, changed, [])
           \<and> new = filter (\<lambda>r. old_for example_store [0] r = None) [1, 2]
           \<and> subseq new [1, 2]
           \<and> list_all2 (\<lambda>r p. old_for example_store [0] r = Some (fst p) \<and> merged_from example_store s' r p)
                 (filter (\<lambda>r. old_for example_store [0] r \<noteq> None) [1, 2]) changed
           \<and> length new + length changed = length [1, 2 :: nat]
           \<and> set (map snd changed) \<inter> set [1, 2] = {}"
  by (rule merge_totality[OF example_store_wf]) (simp_all add: example_store_def)

theorem merge_totality_counterexample:
  "merge example_store [0] [1, 2] =
     Some (\<lparr>object_heap = [(''a'', 0), (''a'', 1), (''b'', 2), (''a'', 3)],
            list_heap = [[\<lparr>object_id = 1\<rparr>], [\<lparr>object_id = 2\<rparr>], [\<lparr>object_id = 3\<rparr>],
                         [\<lparr>object_id = 1\<rparr>, \<lparr>object_id = 2\<rparr>]]\<rparr>,
           [2], [(0, 3)], [])
   \<and> 1 \<notin> set [2::nat] \<and> 1 \<notin> set (map snd [(0::nat, 3::nat)])
   \<and> read_bucket example_store 1 = Some \<lparr>group = ''a'', activities = [\<lparr>object_id = 2\<rparr>]\<rparr>
   \<and> read_bucket \<lparr>object_heap = [(''a'', 0), (''a'', 1), (''b'', 2), (''a'', 3)],
            list_heap = [[\<lparr>object_id = 1\<rparr>], [\<lparr>object_id = 2\<rparr>], [\<lparr>object_id = 3\<rparr>],
                         [\<lparr>object_id = 1\<rparr>, \<lparr>object_id = 2\<rparr>]]\<rparr> 3
       = Some \<lparr>group = ''a'', activities = [\<lparr>object_id = 1\<rparr>, \<lparr>object_id = 2\<rparr>]\<rparr>"
  by (simp add: merge_def example_store_def get_object_def dict_of_def deepcopy_def get_list_def
        append_activities.simps append_object_def read_bucket_def)

text \<open>
  Claim C4. \<^verbatim>\<open>merge\<close> returns, and the last component of its result is the empty list.
\<close>

theorem merge_removed_empty:
  assumes "wf_store s"
      and "\<forall>r\<in>set aggregated. r < length (object_heap s)"
      and "\<forall>r\<in>set new_aggregated. r < length (object_heap s)"
  shows "\<exists>s' new changed. merge s aggregated new_aggregated = Some (s', new, changed, [])"
proof -
  from merge_run[OF assms] obtain s' C where
    "merge s aggregated new_aggregated =
       Some (s', filter (\<lambda>r. old_for s aggregated r = None) new_aggregated, C, [])"
    by blast
  then show ?thesis by blast
qed

theorem merge_removed_empty_witness:
  "\<exists>s' new changed. merge example_store [0, 2] [1] = Some (s', new, changed, [])"
  by (rule merge_removed_empty[OF example_store_wf]) (simp_all add: example_store_def)


end
